theory Spec2Isabelle
  imports Complex_Main "HOL-Library.Multiset"
begin

section \<open>Python numbers\<close>

text \<open>
  The editor computes with Python floats, which are IEEE 754 binary64 values. The times of
  notes and of the beat grid are modelled by exact rationals: every finite float is a
  rational, and that part of the model leaves out NaN, the infinities and the rounding error
  of float arithmetic. The peak detector computes new floats from its inputs, and its
  results depend on the rounding and on the floats that are not finite; it is modelled with
  the type \<open>float\<close> of the next section. Python ints are \<open>int\<close>.
\<close>

datatype error = ValueError | IndexError | KeyError | OverflowError

definition py_int :: "rat \<Rightarrow> int" where
  \<comment> \<open>Python's \<open>int(x)\<close> on a finite float: truncation towards zero.\<close>
  "py_int q = (if 0 \<le> q then \<lfloor>q\<rfloor> else \<lceil>q\<rceil>)"

definition round_half_even :: "rat \<Rightarrow> int" where
  "round_half_even q =
     (let f = \<lfloor>q\<rfloor>; d = q - of_int f
      in if d < 1 / 2 then f else if 1 / 2 < d then f + 1 else if even f then f else f + 1)"

definition py_round :: "rat \<Rightarrow> nat \<Rightarrow> rat" where
  \<comment> \<open>Python's \<open>round(x, ndigits)\<close>: to the nearest multiple of \<open>10 ^ -ndigits\<close>, ties to even.\<close>
  "py_round x nd = of_int (round_half_even (x * 10 ^ nd)) / 10 ^ nd"

section \<open>Binary64 arithmetic\<close>

text \<open>
  A float is a finite value, an infinity or NaN. The two zeros are identified, as \<open>==\<close>
  identifies them; no operation below depends on the sign of a zero.
\<close>

datatype float = Float rat | PosInf | NegInf | NaN

text \<open>
  Rounding to the nearest binary64 value, ties to even. The argument of \<open>round_quantum\<close> is
  a magnitude counted in units of \<open>2 ^ -1074\<close>, the smallest positive binary64 value. Below
  \<open>2 ^ 53\<close> units the representable values are the whole numbers of units (the subnormal
  values and the first normal binade); from there on the step doubles with every binade,
  which leaves 53 significant bits. A rounded magnitude of \<open>2 ^ 1024\<close> or more overflows to
  an infinity.
\<close>

function round_quantum :: "rat \<Rightarrow> int" where
  "round_quantum y = (if y < 2 ^ 53 then round_half_even y else 2 * round_quantum (y / 2))"
  by pat_completeness auto
termination
proof (relation "measure (\<lambda>y. nat \<lfloor>y\<rfloor>)")
  show "wf (measure (\<lambda>y::rat. nat \<lfloor>y\<rfloor>))" by simp
next
  fix y :: rat
  assume "\<not> y < 2 ^ 53"
  then have y: "2 ^ 53 \<le> y" by simp
  then have "1 \<le> y / 2" by simp
  moreover have "y / 2 + y / 2 = y" by simp
  ultimately have "y / 2 + 1 \<le> y" by linarith
  then have "\<lfloor>y / 2\<rfloor> + 1 \<le> \<lfloor>y\<rfloor>" by linarith
  moreover have "0 \<le> \<lfloor>y / 2\<rfloor>" using y by simp
  ultimately have "nat \<lfloor>y / 2\<rfloor> < nat \<lfloor>y\<rfloor>" by linarith
  then show "(y / 2, y) \<in> measure (\<lambda>y. nat \<lfloor>y\<rfloor>)" by simp
qed

declare round_quantum.simps [simp del]

definition fl_rat :: "rat \<Rightarrow> rat" where
  \<comment> \<open>The nearest value with 53 significant bits and an exponent that is not bounded above.\<close>
  "fl_rat x = sgn x * of_int (round_quantum (\<bar>x\<bar> * 2 ^ 1074)) / 2 ^ 1074"

definition inf_of :: "rat \<Rightarrow> float" where
  \<comment> \<open>The infinity with the sign of \<open>s\<close>; NaN when there is no sign.\<close>
  "inf_of s = (if s = 0 then NaN else if 0 < s then PosInf else NegInf)"

definition fl :: "rat \<Rightarrow> float" where
  \<comment> \<open>The float that an operation returns when its exact result is \<open>x\<close>.\<close>
  "fl x = (let y = fl_rat x in if 2 ^ 1024 \<le> \<bar>y\<bar> then inf_of x else Float y)"

fun finite_float :: "float \<Rightarrow> bool" where
  \<comment> \<open>A finite binary64 value: rounding leaves it as it is.\<close>
  "finite_float (Float x) = (fl x = Float x)"
| "finite_float _ = False"

fun is_nan :: "float \<Rightarrow> bool" where
  "is_nan NaN = True"
| "is_nan _ = False"

fun fsgn :: "float \<Rightarrow> rat" where
  "fsgn (Float x) = sgn x"
| "fsgn PosInf = 1"
| "fsgn NegInf = - 1"
| "fsgn NaN = 0"

fun fneg :: "float \<Rightarrow> float" where
  "fneg (Float x) = Float (- x)"
| "fneg PosInf = NegInf"
| "fneg NegInf = PosInf"
| "fneg NaN = NaN"

fun fadd :: "float \<Rightarrow> float \<Rightarrow> float" where
  "fadd (Float x) (Float y) = fl (x + y)"
| "fadd NaN _ = NaN"
| "fadd _ NaN = NaN"
| "fadd PosInf NegInf = NaN"
| "fadd NegInf PosInf = NaN"
| "fadd PosInf _ = PosInf"
| "fadd _ PosInf = PosInf"
| "fadd NegInf _ = NegInf"
| "fadd _ NegInf = NegInf"

definition fsub :: "float \<Rightarrow> float \<Rightarrow> float" where
  "fsub a b = fadd a (fneg b)"

fun fmul :: "float \<Rightarrow> float \<Rightarrow> float" where
  "fmul (Float x) (Float y) = fl (x * y)"
| "fmul a b = (if is_nan a \<or> is_nan b then NaN else inf_of (fsgn a * fsgn b))"

fun fdiv :: "float \<Rightarrow> float \<Rightarrow> float" where
  \<comment> \<open>On a zero divisor this is numpy's result; Python's own floats raise
      \<open>ZeroDivisionError\<close> there. No division of the source has a zero divisor: they divide by
      \<open>100.0\<close> and by a duration that was tested to be positive.\<close>
  "fdiv (Float x) (Float y) = (if y = 0 then inf_of x else fl (x / y))"
| "fdiv (Float x) PosInf = Float 0"
| "fdiv (Float x) NegInf = Float 0"
| "fdiv PosInf (Float y) = (if 0 \<le> y then PosInf else NegInf)"
| "fdiv NegInf (Float y) = (if 0 \<le> y then NegInf else PosInf)"
| "fdiv PosInf PosInf = NaN"
| "fdiv PosInf NegInf = NaN"
| "fdiv NegInf PosInf = NaN"
| "fdiv NegInf NegInf = NaN"
| "fdiv NaN _ = NaN"
| "fdiv _ NaN = NaN"

text \<open>The comparisons \<open><\<close> and \<open><=\<close>; with NaN on either side they are false.\<close>

fun flt :: "float \<Rightarrow> float \<Rightarrow> bool" where
  "flt (Float x) (Float y) = (x < y)"
| "flt NaN _ = False"
| "flt _ NaN = False"
| "flt _ NegInf = False"
| "flt PosInf _ = False"
| "flt NegInf _ = True"
| "flt _ PosInf = True"

fun fle :: "float \<Rightarrow> float \<Rightarrow> bool" where
  "fle (Float x) (Float y) = (x \<le> y)"
| "fle NaN _ = False"
| "fle _ NaN = False"
| "fle NegInf _ = True"
| "fle _ PosInf = True"
| "fle PosInf _ = False"
| "fle _ NegInf = False"

fun int_of_float :: "float \<Rightarrow> error + int" where
  \<comment> \<open>\<open>int(x)\<close>: \<open>ValueError\<close> on NaN, \<open>OverflowError\<close> on an infinity.\<close>
  "int_of_float (Float x) = Inr (py_int x)"
| "int_of_float NaN = Inl ValueError"
| "int_of_float PosInf = Inl OverflowError"
| "int_of_float NegInf = Inl OverflowError"

definition float_of_nat :: "nat \<Rightarrow> float" where
  \<comment> \<open>The conversion of an int operand to float; it is exact below \<open>2 ^ 53\<close>.\<close>
  "float_of_nat n = fl (of_nat n)"

definition true_divide :: "nat \<Rightarrow> nat \<Rightarrow> float" where
  \<comment> \<open>\<open>a / b\<close> on two ints: the quotient, rounded once. Python raises
      \<open>ZeroDivisionError\<close> for \<open>b = 0\<close>; the source divides by the number of samples inside
      the loop over the samples, where it is positive.\<close>
  "true_divide a b = fl (of_nat a / of_nat b)"

text \<open>\<open>np.max\<close> and \<open>np.min\<close> on a non-empty array: NaN as soon as one element is NaN.\<close>

definition np_max :: "float list \<Rightarrow> float" where
  "np_max xs = (if list_ex is_nan xs then NaN
                else fold (\<lambda>x m. if flt m x then x else m) (tl xs) (hd xs))"

definition np_min :: "float list \<Rightarrow> float" where
  "np_min xs = (if list_ex is_nan xs then NaN
                else fold (\<lambda>x m. if flt x m then x else m) (tl xs) (hd xs))"

section \<open>utils/grid.py\<close>

fun argmin_first :: "rat \<Rightarrow> rat list \<Rightarrow> nat" where
  \<comment> \<open>\<open>np.argmin\<close> on the non-empty array \<open>x # xs\<close>: the index of the first minimum.\<close>
  "argmin_first x [] = 0"
| "argmin_first x (y # ys) =
     (let k = argmin_first y ys in if x \<le> (y # ys) ! k then 0 else Suc k)"

definition snap_to_grid :: "rat \<Rightarrow> rat list \<Rightarrow> rat" where
  "snap_to_grid t grid =
     (case map (\<lambda>g. \<bar>g - t\<bar>) grid of
        [] \<Rightarrow> t
      | d # ds \<Rightarrow> grid ! argmin_first d ds)"

section \<open>utils/peaks.py\<close>

text \<open>The constants \<open>0.7\<close> and \<open>0.05\<close> of core/constants.py: the floats nearest to them.\<close>

definition DEFAULT_REARM_RATIO :: float where
  "DEFAULT_REARM_RATIO = fl (7 / 10)"

definition MIN_PEAK_GAP_SECONDS :: float where
  "MIN_PEAK_GAP_SECONDS = fl (5 / 100)"

text \<open>
  The inner loop of \<open>detect_peaks\<close>: from \<open>j\<close>, walk over the samples that stay at or above
  the threshold, tracking the first largest one. Returns \<open>(peak_idx, j)\<close>.
\<close>

function scan_region :: "float list \<Rightarrow> float \<Rightarrow> nat \<Rightarrow> float \<Rightarrow> nat \<Rightarrow> nat \<times> nat" where
  "scan_region rms threshold j peak_val peak_idx =
     (if j < length rms \<and> fle threshold (rms ! j)
      then (if flt peak_val (rms ! j)
            then scan_region rms threshold (j + 1) (rms ! j) j
            else scan_region rms threshold (j + 1) peak_val peak_idx)
      else (peak_idx, j))"
  by pat_completeness auto
termination
  by (relation "measure (\<lambda>(rms, threshold, j, peak_val, peak_idx). length rms - j)") auto

declare scan_region.simps [simp del]

lemma scan_region_bounds:
  "scan_region rms threshold j peak_val peak_idx = (p, j') \<Longrightarrow> peak_idx < j \<Longrightarrow>
     j \<le> j' \<and> peak_idx \<le> p \<and> p < j'"
proof (induction rms threshold j peak_val peak_idx rule: scan_region.induct)
  case (1 rms threshold j peak_val peak_idx)
  note unfold = scan_region.simps [of rms threshold j peak_val peak_idx]
  show ?case
  proof (cases "j < length rms \<and> fle threshold (rms ! j)")
    case False
    with "1.prems" show ?thesis by (auto simp: unfold)
  next
    case in_region: True
    show ?thesis
    proof (cases "flt peak_val (rms ! j)")
      case True
      with in_region "1.prems"
      have "scan_region rms threshold (j + 1) (rms ! j) j = (p, j')" by (simp add: unfold)
      from "1.IH"(1) [OF in_region True this] "1.prems"(2)
      show ?thesis by simp
    next
      case False
      with in_region "1.prems"
      have "scan_region rms threshold (j + 1) peak_val peak_idx = (p, j')" by (simp add: unfold)
      from "1.IH"(2) [OF in_region False this] "1.prems"(2)
      show ?thesis by simp
    qed
  qed
qed

lemma scan_region_advances:
  "(p, j') = scan_region rms threshold (Suc i) v i \<Longrightarrow> i < j'"
  using scan_region_bounds [of rms threshold "Suc i" v i p j'] by simp

text \<open>
  The outer loop. The state is the sample index \<open>i\<close>, the flag \<open>armed\<close>, the index
  \<open>last_peak_sample\<close> of the last accepted peak and the list \<open>peaks\<close> of accepted times.
  The time of a peak is \<open>(peak_idx / num_samples) * duration\<close>: a division of two ints, then
  a float product.
\<close>

function detect_loop ::
  "float list \<Rightarrow> float \<Rightarrow> float \<Rightarrow> int \<Rightarrow> float \<Rightarrow> nat \<Rightarrow> bool \<Rightarrow> int \<Rightarrow> float list \<Rightarrow> float list" where
  "detect_loop rms threshold rearm_threshold min_gap_samples duration i armed last_peak_sample peaks =
     (if i < length rms
      then (if armed
            then (if fle threshold (rms ! i)
                  then (case scan_region rms threshold (i + 1) (rms ! i) i of (peak_idx, j) \<Rightarrow>
                          if min_gap_samples \<le> int peak_idx - last_peak_sample
                          then detect_loop rms threshold rearm_threshold min_gap_samples duration
                                 j False (int peak_idx)
                                 (peaks @ [fmul (true_divide peak_idx (length rms)) duration])
                          else detect_loop rms threshold rearm_threshold min_gap_samples duration
                                 j False last_peak_sample peaks)
                  else detect_loop rms threshold rearm_threshold min_gap_samples duration
                         (i + 1) armed last_peak_sample peaks)
            else detect_loop rms threshold rearm_threshold min_gap_samples duration
                   (i + 1) (flt (rms ! i) rearm_threshold) last_peak_sample peaks)
      else peaks)"
  by pat_completeness auto
termination
  apply (relation "measure (\<lambda>(rms, threshold, rearm_threshold, min_gap_samples, duration, i,
                            armed, last_peak_sample, peaks). length rms - i)")
  apply (auto dest!: scan_region_advances intro: diff_less_mono2)
  done

declare detect_loop.simps [simp del]

definition waveform_rms :: "(string \<times> float list) list \<Rightarrow> float list" where
  \<comment> \<open>\<open>waveform_data.get("rms", [])\<close>\<close>
  "waveform_rms waveform_data = (case map_of waveform_data ''rms'' of None \<Rightarrow> [] | Some v \<Rightarrow> v)"

definition detect_peaks ::
  "(string \<times> float list) list \<Rightarrow> float \<Rightarrow> float \<Rightarrow> float \<Rightarrow> float option \<Rightarrow> error + float list" where
  \<comment> \<open>\<open>waveform_data\<close> is the dict of sample arrays, in insertion order; the empty list is the
      empty dict (or \<open>None\<close>), which Python treats as false. The one raising operation is
      \<open>int(min_gap_seconds * samples_per_second)\<close>.\<close>
  "detect_peaks waveform_data duration threshold_percent min_gap_seconds rearm_threshold_percent =
     (if waveform_data = [] then Inr []
      else let rms = waveform_rms waveform_data
      in if rms = [] then Inr []
      else let num_samples = length rms;
               max_rms = np_max rms;
               min_rms = np_min rms;
               rms_range = fsub max_rms min_rms
      in if fle rms_range (Float 0) then Inr []
      else let threshold = fadd min_rms (fdiv (fmul rms_range threshold_percent) (Float 100));
               rearm_percent = (case rearm_threshold_percent of
                                  None \<Rightarrow> fmul threshold_percent DEFAULT_REARM_RATIO
                                | Some r \<Rightarrow> r);
               rearm_threshold = fadd min_rms (fdiv (fmul rms_range rearm_percent) (Float 100));
               samples_per_second = (if flt (Float 0) duration
                                     then fdiv (float_of_nat num_samples) duration else Float 1)
      in case int_of_float (fmul min_gap_seconds samples_per_second) of
           Inl e \<Rightarrow> Inl e
         | Inr min_gap_samples \<Rightarrow>
             Inr (detect_loop rms threshold rearm_threshold min_gap_samples duration
                    0 True (- min_gap_samples) []))"

text \<open>
  ui/peak_controls.py, \<open>PeakControls._update_peaks\<close>: the peaks that the editor stores for one
  track. \<open>waveform_data\<close> is \<open>project.waveform_data.get(waveform_key)\<close>, which may be \<open>None\<close>.
\<close>

record PeakSettings =
  enabled :: bool
  threshold_percent :: float
  rearm_threshold_percent :: float
  linked :: bool

definition update_peaks ::
  "PeakSettings \<Rightarrow> (string \<times> float list) list option \<Rightarrow> float \<Rightarrow> error + float list" where
  "update_peaks settings waveform_data duration =
     (if \<not> enabled settings then Inr []
      else case waveform_data of
          None \<Rightarrow> Inr []
        | Some wd \<Rightarrow>
            if wd = [] \<or> fle duration (Float 0) then Inr []
            else detect_peaks wd duration (threshold_percent settings) MIN_PEAK_GAP_SECONDS
                   (if linked settings then None else Some (rearm_threshold_percent settings)))"

section \<open>core/constants.py\<close>

definition LANES :: "string list" where
  "LANES = [''base'', ''drum'', ''bass'', ''vocal'', ''lead'']"

definition MAX_HISTORY_SIZE :: int where
  "MAX_HISTORY_SIZE = 100"

section \<open>core/beatmap.py\<close>

definition BEATMAP_VERSION :: string where
  "BEATMAP_VERSION = ''1.1''"

definition NOTE_TYPES :: "string list" where
  "NOTE_TYPES = LANES"

record Note =
  time :: rat
  level :: int
  type :: string
  selected :: bool

text \<open>
  \<open>Note\<close> objects are mutable and shared: the beatmap's list and the commands of the history
  hold references to the same objects. The model keeps the objects in a store, a list of
  \<open>Note\<close> values, and a reference is an index into it. A new object is appended to the store.
\<close>

type_synonym ref = nat

type_synonym heap = "Note list"

definition Note_init :: "rat \<Rightarrow> int \<Rightarrow> string \<Rightarrow> error + Note" where
  \<comment> \<open>The generated \<open>__init__\<close> with \<open>__post_init__\<close>: \<open>selected\<close> takes its default.\<close>
  "Note_init t l ty =
     (if l \<notin> set [1, 2, 3] then Inl ValueError
      else if ty \<notin> set NOTE_TYPES then Inl ValueError
      else Inr \<lparr>time = t, level = l, type = ty, selected = False\<rparr>)"

definition note_eq :: "Note \<Rightarrow> Note \<Rightarrow> bool" where
  \<comment> \<open>The generated \<open>__eq__\<close>: \<open>selected\<close> is declared with \<open>compare=False\<close>.\<close>
  "note_eq a b \<longleftrightarrow> time a = time b \<and> level a = level b \<and> type a = type b"

definition copy :: "Note \<Rightarrow> error + Note" where
  "copy n = Note_init (time n) (level n) (type n)"

text \<open>
  The persistent form. A JSON object is a record with one field for each key, \<open>None\<close> when
  the key is absent.
\<close>

record note_dict =
  nd_time :: "rat option"
  nd_level :: "int option"
  nd_type :: "string option"

definition Note_to_dict :: "Note \<Rightarrow> note_dict" where
  "Note_to_dict n =
     \<lparr>nd_time = Some (py_round (time n) 3), nd_level = Some (level n), nd_type = Some (type n)\<rparr>"

definition Note_from_dict :: "note_dict \<Rightarrow> error + Note" where
  \<comment> \<open>\<open>data["time"]\<close> raises \<open>KeyError\<close> on a missing key.\<close>
  "Note_from_dict d =
     (case nd_time d of
        None \<Rightarrow> Inl KeyError
      | Some t \<Rightarrow>
          (case nd_level d of
             None \<Rightarrow> Inl KeyError
           | Some l \<Rightarrow>
               (case nd_type d of
                  None \<Rightarrow> Inl KeyError
                | Some ty \<Rightarrow> Note_init t l ty)))"

record BeatmapMeta =
  version :: string
  filename :: string
  title :: string
  category :: string
  priority :: int
  bpm :: rat
  total_duration :: rat

record meta_dict =
  md_version :: "string option"
  md_filename :: "string option"
  md_title :: "string option"
  md_category :: "string option"
  md_priority :: "int option"
  md_bpm :: "rat option"
  md_total_duration :: "rat option"

definition BeatmapMeta_default :: BeatmapMeta where
  "BeatmapMeta_default =
     \<lparr>version = BEATMAP_VERSION, filename = [], title = [], category = [], priority = 0,
      bpm = 120, total_duration = 0\<rparr>"

definition BeatmapMeta_to_dict :: "BeatmapMeta \<Rightarrow> meta_dict" where
  "BeatmapMeta_to_dict m =
     \<lparr>md_version = Some (version m),
      md_filename = Some (filename m),
      md_title = (if title m \<noteq> [] then Some (title m) else None),
      md_category = (if category m \<noteq> [] then Some (category m) else None),
      md_priority = Some (priority m),
      md_bpm = Some (py_round (bpm m) 1),
      md_total_duration = Some (py_round (total_duration m) 1)\<rparr>"

definition dict_get :: "'a option \<Rightarrow> 'a \<Rightarrow> 'a" where
  \<comment> \<open>\<open>data.get(key, default)\<close> on the field of the key.\<close>
  "dict_get v d = (case v of None \<Rightarrow> d | Some x \<Rightarrow> x)"

definition BeatmapMeta_from_dict :: "meta_dict \<Rightarrow> BeatmapMeta" where
  "BeatmapMeta_from_dict d =
     \<lparr>version = dict_get (md_version d) BEATMAP_VERSION,
      filename = dict_get (md_filename d) [],
      title = dict_get (md_title d) [],
      category = dict_get (md_category d) [],
      priority = dict_get (md_priority d) 0,
      bpm = dict_get (md_bpm d) 120,
      total_duration = dict_get (md_total_duration d) 0\<rparr>"

definition meta_dict_empty :: meta_dict where
  "meta_dict_empty =
     \<lparr>md_version = None, md_filename = None, md_title = None, md_category = None,
      md_priority = None, md_bpm = None, md_total_duration = None\<rparr>"

record Beatmap =
  meta :: BeatmapMeta
  "notes" :: "ref list"
  dirty :: bool

record beatmap_dict =
  bd_meta :: "meta_dict option"
  bd_notes :: "note_dict list option"

definition Beatmap_init :: "BeatmapMeta option \<Rightarrow> Beatmap" where
  "Beatmap_init m = \<lparr>meta = dict_get m BeatmapMeta_default, notes = [], dirty = False\<rparr>"

definition sort_by_time :: "heap \<Rightarrow> ref list \<Rightarrow> ref list" where
  \<comment> \<open>\<open>list.sort(key=lambda n: n.time)\<close> and \<open>sorted(...)\<close>: Python's sort is stable, as
      \<open>sort_key\<close> is.\<close>
  "sort_by_time h rs = sort_key (\<lambda>r. time (h ! r)) rs"

definition mark_dirty :: "Beatmap \<Rightarrow> Beatmap" where
  "mark_dirty bm = bm\<lparr>dirty := True\<rparr>"

definition mark_clean :: "Beatmap \<Rightarrow> Beatmap" where
  "mark_clean bm = bm\<lparr>dirty := False\<rparr>"

definition add_note :: "heap \<Rightarrow> Beatmap \<Rightarrow> ref \<Rightarrow> Beatmap" where
  "add_note h bm note = bm\<lparr>notes := sort_by_time h (notes bm @ [note]), dirty := True\<rparr>"

definition list_contains :: "heap \<Rightarrow> ref list \<Rightarrow> ref \<Rightarrow> bool" where
  \<comment> \<open>\<open>note in xs\<close>: some element is the same object or compares equal.\<close>
  "list_contains h xs note \<longleftrightarrow> list_ex (\<lambda>x. x = note \<or> note_eq (h ! x) (h ! note)) xs"

fun list_remove :: "heap \<Rightarrow> ref list \<Rightarrow> ref \<Rightarrow> ref list" where
  \<comment> \<open>\<open>xs.remove(note)\<close> drops the first element that is the same object or compares equal.
      Python raises \<open>ValueError\<close> when there is none; every call in the source is guarded
      by \<open>note in xs\<close>.\<close>
  "list_remove h [] note = []"
| "list_remove h (x # xs) note =
     (if x = note \<or> note_eq (h ! x) (h ! note) then xs else x # list_remove h xs note)"

definition remove_note :: "heap \<Rightarrow> Beatmap \<Rightarrow> ref \<Rightarrow> Beatmap" where
  "remove_note h bm note =
     (if list_contains h (notes bm) note
      then bm\<lparr>notes := list_remove h (notes bm) note, dirty := True\<rparr>
      else bm)"

definition remove_notes :: "heap \<Rightarrow> Beatmap \<Rightarrow> ref list \<Rightarrow> Beatmap" where
  "remove_notes h bm ns =
     (fold (\<lambda>note b. if list_contains h (notes b) note
                      then b\<lparr>notes := list_remove h (notes b) note\<rparr> else b) ns bm)
     \<lparr>dirty := True\<rparr>"

definition Beatmap_clear :: "Beatmap \<Rightarrow> Beatmap" where
  "Beatmap_clear bm = bm\<lparr>notes := [], dirty := True\<rparr>"

definition set_notes :: "heap \<Rightarrow> Beatmap \<Rightarrow> ref list \<Rightarrow> Beatmap" where
  "set_notes h bm ns = bm\<lparr>notes := sort_by_time h ns, dirty := True\<rparr>"

definition Beatmap_to_dict :: "heap \<Rightarrow> Beatmap \<Rightarrow> beatmap_dict" where
  "Beatmap_to_dict h bm =
     \<lparr>bd_meta = Some (BeatmapMeta_to_dict (meta bm)),
      bd_notes = Some (map (\<lambda>r. Note_to_dict (h ! r)) (notes bm))\<rparr>"

fun notes_from_dicts :: "note_dict list \<Rightarrow> error + Note list" where
  \<comment> \<open>The list comprehension \<open>[Note.from_dict(n) for n in ...]\<close>; the first failure raises.\<close>
  "notes_from_dicts [] = Inr []"
| "notes_from_dicts (d # ds) =
     (case Note_from_dict d of
        Inl e \<Rightarrow> Inl e
      | Inr n \<Rightarrow> (case notes_from_dicts ds of Inl e \<Rightarrow> Inl e | Inr ns \<Rightarrow> Inr (n # ns)))"

definition Beatmap_from_dict :: "heap \<Rightarrow> beatmap_dict \<Rightarrow> error + heap \<times> Beatmap" where
  \<comment> \<open>The new notes are new objects: they are appended to the store \<open>h\<close>.\<close>
  "Beatmap_from_dict h data =
     (case notes_from_dicts (dict_get (bd_notes data) []) of
        Inl e \<Rightarrow> Inl e
      | Inr ns \<Rightarrow>
          let h' = h @ ns;
              beatmap = Beatmap_init (Some (BeatmapMeta_from_dict (dict_get (bd_meta data) meta_dict_empty)))
          in Inr (h', beatmap\<lparr>notes := sort_by_time h' [length h ..< length h + length ns]\<rparr>))"

section \<open>core/history.py\<close>

text \<open>Formatting for the descriptions: \<open>str\<close> of an int and the format \<open>.3f\<close> of a float.\<close>

definition digit :: "nat \<Rightarrow> char" where
  "digit n = ''0123456789'' ! (n mod 10)"

function str_nat :: "nat \<Rightarrow> string" where
  "str_nat n = (if n < 10 then [digit n] else str_nat (n div 10) @ [digit n])"
  by pat_completeness auto
termination
  by (relation "measure id") auto

declare str_nat.simps [simp del]

definition str_int :: "int \<Rightarrow> string" where
  "str_int i = (if i < 0 then ''-'' @ str_nat (nat (- i)) else str_nat (nat i))"

definition fmt_3f :: "rat \<Rightarrow> string" where
  "fmt_3f x =
     (let m = nat (round_half_even (\<bar>x\<bar> * 1000))
      in (if x < 0 then ''-'' else []) @ str_nat (m div 1000) @ ''.''
           @ [digit (m div 100), digit (m div 10), digit m])"

text \<open>
  The commands. Every command of the source also holds the beatmap it acts on; the model has
  one beatmap, passed to \<open>execute\<close> and \<open>undo\<close> together with the store. The arguments of a
  constructor are the attributes of the object, in the order of the comments.
\<close>

datatype command =
    AddNoteCommand ref  \<comment> \<open>note\<close>
  | AddNotesCommand "ref list"  \<comment> \<open>notes\<close>
  | RemoveNoteCommand ref  \<comment> \<open>note, a copy owned by the command\<close>
  | RemoveNotesCommand "ref list"  \<comment> \<open>notes, copies\<close>
  | MoveNoteCommand ref rat rat string string  \<comment> \<open>note, old_time, new_time, old_type, new_type\<close>
  | ChangeLevelCommand ref int int  \<comment> \<open>note, old_level, new_level\<close>
  | ChangeLevelsCommand "ref list" "int list" int  \<comment> \<open>notes, old_levels, new_level\<close>
  | CompositeCommand "command list" string  \<comment> \<open>commands, _description\<close>
  | SnapNotesCommand "ref list" "rat list" "rat list"  \<comment> \<open>notes, old_times, new_times\<close>
  | MoveNotesCommand "ref list" "rat list" "string list" "rat list" "string list" string
      \<comment> \<open>notes, old_times, old_types, new_times, new_types, _description\<close>
  | CleanupDuplicatesCommand "ref list"  \<comment> \<open>notes_to_remove, copies\<close>
  | PatternEditCommand "Note list" "Note list" string
      \<comment> \<open>notes_to_add, notes_to_remove, lane_type. The copies in the two lists never leave the
          command (\<open>execute\<close> and \<open>undo\<close> copy them again), so they are kept as values.\<close>

type_synonym world = "heap \<times> Beatmap"

fun copies :: "Note list \<Rightarrow> error + Note list" where
  \<comment> \<open>\<open>[n.copy() for n in notes]\<close>\<close>
  "copies [] = Inr []"
| "copies (n # ns) =
     (case copy n of
        Inl e \<Rightarrow> Inl e
      | Inr c \<Rightarrow> (case copies ns of Inl e \<Rightarrow> Inl e | Inr cs \<Rightarrow> Inr (c # cs)))"

definition RemoveNoteCommand_init :: "heap \<Rightarrow> ref \<Rightarrow> error + heap \<times> command" where
  "RemoveNoteCommand_init h note =
     (case copy (h ! note) of
        Inl e \<Rightarrow> Inl e
      | Inr c \<Rightarrow> Inr (h @ [c], RemoveNoteCommand (length h)))"

definition RemoveNotesCommand_init :: "heap \<Rightarrow> ref list \<Rightarrow> error + heap \<times> command" where
  "RemoveNotesCommand_init h ns =
     (case copies (map (\<lambda>n. h ! n) ns) of
        Inl e \<Rightarrow> Inl e
      | Inr cs \<Rightarrow> Inr (h @ cs, RemoveNotesCommand [length h ..< length h + length cs]))"

definition MoveNoteCommand_init :: "heap \<Rightarrow> ref \<Rightarrow> rat \<Rightarrow> string option \<Rightarrow> command" where
  "MoveNoteCommand_init h note new_time new_type =
     MoveNoteCommand note (time (h ! note)) new_time (type (h ! note))
       (case new_type of None \<Rightarrow> type (h ! note) | Some ty \<Rightarrow> ty)"

definition ChangeLevelCommand_init :: "heap \<Rightarrow> ref \<Rightarrow> int \<Rightarrow> command" where
  "ChangeLevelCommand_init h note new_level = ChangeLevelCommand note (level (h ! note)) new_level"

definition ChangeLevelsCommand_init :: "heap \<Rightarrow> ref list \<Rightarrow> int \<Rightarrow> command" where
  "ChangeLevelsCommand_init h ns new_level =
     ChangeLevelsCommand ns (map (\<lambda>n. level (h ! n)) ns) new_level"

definition CompositeCommand_init :: "command list \<Rightarrow> string \<Rightarrow> command" where
  "CompositeCommand_init commands description_text =
     CompositeCommand commands
       (if description_text \<noteq> [] then description_text
        else ''Composite ('' @ str_nat (length commands) @ '' actions)'')"

definition SnapNotesCommand_init :: "heap \<Rightarrow> ref list \<Rightarrow> rat list \<Rightarrow> command" where
  "SnapNotesCommand_init h ns new_times = SnapNotesCommand ns (map (\<lambda>n. time (h ! n)) ns) new_times"

definition MoveNotesCommand_init ::
  "heap \<Rightarrow> ref list \<Rightarrow> rat list option \<Rightarrow> string list option \<Rightarrow> string \<Rightarrow> command" where
  "MoveNotesCommand_init h ns new_times new_types description_text =
     (let old_times = map (\<lambda>n. time (h ! n)) ns;
          old_types = map (\<lambda>n. type (h ! n)) ns
      in MoveNotesCommand ns old_times old_types
           (case new_times of None \<Rightarrow> old_times | Some ts \<Rightarrow> ts)
           (case new_types of None \<Rightarrow> old_types | Some tys \<Rightarrow> tys)
           description_text)"

definition CleanupDuplicatesCommand_init :: "heap \<Rightarrow> ref list \<Rightarrow> error + heap \<times> command" where
  "CleanupDuplicatesCommand_init h notes_to_remove =
     (case copies (map (\<lambda>n. h ! n) notes_to_remove) of
        Inl e \<Rightarrow> Inl e
      | Inr cs \<Rightarrow> Inr (h @ cs, CleanupDuplicatesCommand [length h ..< length h + length cs]))"

definition PatternEditCommand_init ::
  "heap \<Rightarrow> ref list \<Rightarrow> ref list \<Rightarrow> string \<Rightarrow> error + command" where
  "PatternEditCommand_init h notes_to_add notes_to_remove lane_type =
     (case copies (map (\<lambda>n. h ! n) notes_to_add) of
        Inl e \<Rightarrow> Inl e
      | Inr adds \<Rightarrow>
          (case copies (map (\<lambda>n. h ! n) notes_to_remove) of
             Inl e \<Rightarrow> Inl e
           | Inr removes \<Rightarrow> Inr (PatternEditCommand adds removes lane_type)))"

text \<open>Assignments to the attributes of a note object.\<close>

definition set_time_type :: "heap \<Rightarrow> ref \<Rightarrow> rat \<Rightarrow> string \<Rightarrow> heap" where
  "set_time_type h n t ty = h[n := (h ! n)\<lparr>time := t, type := ty\<rparr>]"

definition set_time :: "heap \<Rightarrow> ref \<Rightarrow> rat \<Rightarrow> heap" where
  "set_time h n t = h[n := (h ! n)\<lparr>time := t\<rparr>]"

definition set_level :: "heap \<Rightarrow> ref \<Rightarrow> int \<Rightarrow> heap" where
  "set_level h n l = h[n := (h ! n)\<lparr>level := l\<rparr>]"

definition resort :: "world \<Rightarrow> world" where
  \<comment> \<open>\<open>self.beatmap._notes.sort(key=lambda n: n.time)\<close>, then \<open>self.beatmap.mark_dirty()\<close>\<close>
  "resort w = (case w of (h, bm) \<Rightarrow> (h, mark_dirty (bm\<lparr>notes := sort_by_time h (notes bm)\<rparr>)))"

text \<open>
  \<open>PatternEditCommand\<close>: \<open>execute\<close> removes, for each note of one list, the first note of the
  beatmap at the same rounded time and of the same type, then appends marked copies of the
  other list, and sorts; \<open>undo\<close> does the same with the two lists exchanged.
\<close>

definition remove_matching :: "heap \<Rightarrow> ref list \<Rightarrow> Note \<Rightarrow> ref list" where
  "remove_matching h ns note =
     (case find (\<lambda>existing. py_round (time (h ! existing)) 3 = py_round (time note) 3
                           \<and> type (h ! existing) = type note) ns of
        None \<Rightarrow> ns
      | Some existing \<Rightarrow> list_remove h ns existing)"

fun append_copies :: "heap \<Rightarrow> ref list \<Rightarrow> Note list \<Rightarrow> error + heap \<times> ref list" where
  "append_copies h ns [] = Inr (h, ns)"
| "append_copies h ns (note # rest) =
     (case copy note of
        Inl e \<Rightarrow> Inl e
      | Inr new_note \<Rightarrow> append_copies (h @ [new_note\<lparr>selected := True\<rparr>]) (ns @ [length h]) rest)"

definition pattern_apply :: "Note list \<Rightarrow> Note list \<Rightarrow> world \<Rightarrow> error + world" where
  "pattern_apply to_remove to_add w =
     (case w of (h, bm) \<Rightarrow>
        (case append_copies h (fold (\<lambda>note ns. remove_matching h ns note) to_remove (notes bm)) to_add of
           Inl e \<Rightarrow> Inl e
         | Inr (h', ns) \<Rightarrow> Inr (resort (h', bm\<lparr>notes := ns\<rparr>))))"

fun Command_execute :: "command \<Rightarrow> world \<Rightarrow> error + world" where
  "Command_execute (AddNoteCommand note) (h, bm) = Inr (h, add_note h bm note)"
| "Command_execute (AddNotesCommand ns) (h, bm) = Inr (h, fold (\<lambda>note b. add_note h b note) ns bm)"
| "Command_execute (RemoveNoteCommand note) (h, bm) = Inr (h, remove_note h bm note)"
| "Command_execute (RemoveNotesCommand ns) (h, bm) = Inr (h, remove_notes h bm ns)"
| "Command_execute (MoveNoteCommand note old_time new_time old_type new_type) (h, bm) =
     Inr (resort (set_time_type h note new_time new_type, bm))"
| "Command_execute (ChangeLevelCommand note old_level new_level) (h, bm) =
     Inr (set_level h note new_level, mark_dirty bm)"
| "Command_execute (ChangeLevelsCommand ns old_levels new_level) (h, bm) =
     Inr (fold (\<lambda>note h. set_level h note new_level) ns h, mark_dirty bm)"
| "Command_execute (CompositeCommand commands d) w =
     fold (\<lambda>cmd r. case r of Inl e \<Rightarrow> Inl e | Inr w' \<Rightarrow> Command_execute cmd w') commands (Inr w)"
| "Command_execute (SnapNotesCommand ns old_times new_times) (h, bm) =
     Inr (resort (fold (\<lambda>(note, new_time) h. set_time h note new_time) (zip ns new_times) h, bm))"
| "Command_execute (MoveNotesCommand ns old_times old_types new_times new_types d) (h, bm) =
     Inr (resort (fold (\<lambda>(note, new_time, new_type) h. set_time_type h note new_time new_type)
                   (zip ns (zip new_times new_types)) h, bm))"
| "Command_execute (CleanupDuplicatesCommand notes_to_remove) (h, bm) =
     Inr (h, remove_notes h bm notes_to_remove)"
| "Command_execute (PatternEditCommand notes_to_add notes_to_remove lane_type) w =
     pattern_apply notes_to_remove notes_to_add w"

fun Command_undo :: "command \<Rightarrow> world \<Rightarrow> error + world" where
  "Command_undo (AddNoteCommand note) (h, bm) = Inr (h, remove_note h bm note)"
| "Command_undo (AddNotesCommand ns) (h, bm) = Inr (h, remove_notes h bm ns)"
| "Command_undo (RemoveNoteCommand note) (h, bm) = Inr (h, add_note h bm note)"
| "Command_undo (RemoveNotesCommand ns) (h, bm) = Inr (h, fold (\<lambda>note b. add_note h b note) ns bm)"
| "Command_undo (MoveNoteCommand note old_time new_time old_type new_type) (h, bm) =
     Inr (resort (set_time_type h note old_time old_type, bm))"
| "Command_undo (ChangeLevelCommand note old_level new_level) (h, bm) =
     Inr (set_level h note old_level, mark_dirty bm)"
| "Command_undo (ChangeLevelsCommand ns old_levels new_level) (h, bm) =
     Inr (fold (\<lambda>(note, old_level) h. set_level h note old_level) (zip ns old_levels) h, mark_dirty bm)"
| "Command_undo (CompositeCommand commands d) w =
     fold (\<lambda>cmd r. case r of Inl e \<Rightarrow> Inl e | Inr w' \<Rightarrow> Command_undo cmd w') (rev commands) (Inr w)"
| "Command_undo (SnapNotesCommand ns old_times new_times) (h, bm) =
     Inr (resort (fold (\<lambda>(note, old_time) h. set_time h note old_time) (zip ns old_times) h, bm))"
| "Command_undo (MoveNotesCommand ns old_times old_types new_times new_types d) (h, bm) =
     Inr (resort (fold (\<lambda>(note, old_time, old_type) h. set_time_type h note old_time old_type)
                   (zip ns (zip old_times old_types)) h, bm))"
| "Command_undo (CleanupDuplicatesCommand notes_to_remove) (h, bm) =
     Inr (h, fold (\<lambda>note b. add_note h b note) notes_to_remove bm)"
| "Command_undo (PatternEditCommand notes_to_add notes_to_remove lane_type) w =
     pattern_apply notes_to_add notes_to_remove w"

fun description :: "heap \<Rightarrow> command \<Rightarrow> string" where
  "description h (AddNoteCommand note) =
     ''Add '' @ type (h ! note) @ '' note at '' @ fmt_3f (time (h ! note)) @ ''s''"
| "description h (AddNotesCommand ns) = ''Add '' @ str_nat (length ns) @ '' notes''"
| "description h (RemoveNoteCommand note) =
     ''Remove '' @ type (h ! note) @ '' note at '' @ fmt_3f (time (h ! note)) @ ''s''"
| "description h (RemoveNotesCommand ns) = ''Remove '' @ str_nat (length ns) @ '' notes''"
| "description h (MoveNoteCommand note old_time new_time old_type new_type) =
     (if old_type \<noteq> new_type
      then ''Move note from '' @ fmt_3f old_time @ ''s to '' @ fmt_3f new_time
             @ ''s and change to '' @ new_type
      else ''Move note from '' @ fmt_3f old_time @ ''s to '' @ fmt_3f new_time @ ''s'')"
| "description h (ChangeLevelCommand note old_level new_level) =
     ''Change level from '' @ str_int old_level @ '' to '' @ str_int new_level"
| "description h (ChangeLevelsCommand ns old_levels new_level) =
     ''Change '' @ str_nat (length ns) @ '' notes to level '' @ str_int new_level"
| "description h (CompositeCommand commands d) = d"
| "description h (SnapNotesCommand ns old_times new_times) =
     ''Snap '' @ str_nat (length ns) @ '' notes to grid''"
| "description h (MoveNotesCommand ns old_times old_types new_times new_types d) =
     (if d \<noteq> [] then d else ''Move '' @ str_nat (length ns) @ '' notes'')"
| "description h (CleanupDuplicatesCommand notes_to_remove) =
     ''Clean up '' @ str_nat (length notes_to_remove) @ '' duplicate notes''"
| "description h (PatternEditCommand notes_to_add notes_to_remove lane_type) =
     ''Edit '' @ lane_type @ '' pattern (+'' @ str_nat (length notes_to_add) @ '', -''
       @ str_nat (length notes_to_remove) @ '')''"

text \<open>
  The history. The stacks are Python lists: the top is the last element, and the oldest
  command is the first.
\<close>

record History =
  undo_stack :: "command list"
  redo_stack :: "command list"
  max_size :: int

definition History_init :: "int \<Rightarrow> History" where
  "History_init ms = \<lparr>undo_stack = [], redo_stack = [], max_size = ms\<rparr>"

fun trim_stack :: "int \<Rightarrow> command list \<Rightarrow> error + command list" where
  \<comment> \<open>\<open>while len(stack) > max_size: stack.pop(0)\<close>; \<open>pop(0)\<close> on the empty list raises
      \<open>IndexError\<close>, which happens when \<open>max_size\<close> is negative.\<close>
  "trim_stack ms [] = (if 0 > ms then Inl IndexError else Inr [])"
| "trim_stack ms (c # cs) = (if int (length (c # cs)) > ms then trim_stack ms cs else Inr (c # cs))"

definition History_record :: "History \<Rightarrow> command \<Rightarrow> error + History" where
  "History_record hist cmd =
     (case trim_stack (max_size hist) (undo_stack hist @ [cmd]) of
        Inl e \<Rightarrow> Inl e
      | Inr st \<Rightarrow> Inr (hist\<lparr>undo_stack := st, redo_stack := []\<rparr>))"

definition History_execute :: "History \<Rightarrow> command \<Rightarrow> world \<Rightarrow> error + History \<times> world" where
  "History_execute hist cmd w =
     (case Command_execute cmd w of
        Inl e \<Rightarrow> Inl e
      | Inr w' \<Rightarrow> (case History_record hist cmd of Inl e \<Rightarrow> Inl e | Inr hist' \<Rightarrow> Inr (hist', w')))"

definition History_undo :: "History \<Rightarrow> world \<Rightarrow> error + string option \<times> History \<times> world" where
  "History_undo hist w =
     (if undo_stack hist = [] then Inr (None, hist, w)
      else let cmd = last (undo_stack hist)
           in case Command_undo cmd w of
                Inl e \<Rightarrow> Inl e
              | Inr w' \<Rightarrow>
                  Inr (Some (description (fst w') cmd),
                       hist\<lparr>undo_stack := butlast (undo_stack hist),
                            redo_stack := redo_stack hist @ [cmd]\<rparr>,
                       w'))"

definition History_redo :: "History \<Rightarrow> world \<Rightarrow> error + string option \<times> History \<times> world" where
  "History_redo hist w =
     (if redo_stack hist = [] then Inr (None, hist, w)
      else let cmd = last (redo_stack hist)
           in case Command_execute cmd w of
                Inl e \<Rightarrow> Inl e
              | Inr w' \<Rightarrow>
                  Inr (Some (description (fst w') cmd),
                       hist\<lparr>redo_stack := butlast (redo_stack hist),
                            undo_stack := undo_stack hist @ [cmd]\<rparr>,
                       w'))"

definition can_undo :: "History \<Rightarrow> bool" where
  "can_undo hist \<longleftrightarrow> length (undo_stack hist) > 0"

definition can_redo :: "History \<Rightarrow> bool" where
  "can_redo hist \<longleftrightarrow> length (redo_stack hist) > 0"

definition History_clear :: "History \<Rightarrow> History" where
  "History_clear hist = hist\<lparr>undo_stack := [], redo_stack := []\<rparr>"

section \<open>ui/app.py: the clean-up of duplicates\<close>

text \<open>
  \<open>App._on_cleanup_duplicates\<close>. \<open>time_groups\<close> is the \<open>defaultdict(list)\<close> keyed by the rounded
  time, as the list of its items in insertion order; \<open>duplicates_to_remove\<close> is the list
  \<open>notes_to_remove\<close>. The status messages are left out.
\<close>

fun group_append :: "rat \<Rightarrow> ref \<Rightarrow> (rat \<times> ref list) list \<Rightarrow> (rat \<times> ref list) list" where
  "group_append k note [] = [(k, [note])]"
| "group_append k note ((k', grp) # gs) =
     (if k' = k then (k', grp @ [note]) # gs else (k', grp) # group_append k note gs)"

definition time_groups :: "heap \<Rightarrow> ref list \<Rightarrow> (rat \<times> ref list) list" where
  "time_groups h ns = fold (\<lambda>note gs. group_append (py_round (time (h ! note)) 3) note gs) ns []"

definition duplicates_to_remove :: "heap \<Rightarrow> ref list \<Rightarrow> ref list" where
  "duplicates_to_remove h ns =
     concat (map (\<lambda>(t, grp). if length grp > 1
                                 then tl (sort_key (\<lambda>n. level (h ! n)) grp) else [])
               (time_groups h ns))"

definition on_cleanup_duplicates :: "History \<Rightarrow> world \<Rightarrow> error + History \<times> world" where
  "on_cleanup_duplicates hist w =
     (case w of (h, bm) \<Rightarrow>
        if notes bm = [] then Inr (hist, w)
        else let notes_to_remove = duplicates_to_remove h (notes bm)
             in if notes_to_remove = [] then Inr (hist, w)
                else (case CleanupDuplicatesCommand_init h notes_to_remove of
                        Inl e \<Rightarrow> Inl e
                      | Inr (h', cmd) \<Rightarrow> History_execute hist cmd (h', bm)))"

section \<open>ui/pattern_editor.py\<close>

text \<open>
  The state of the modal, without its widgets. \<open>modal_open\<close> stands for \<open>_modal_tag\<close> being
  set; the callbacks are not modelled as functions: \<open>on_apply_set\<close> and
  \<open>on_apply_to_all_set\<close> say whether one is installed, and a call of one is returned as a
  value of type \<open>callback\<close>. The private copies \<open>_original_notes\<close> are kept as values.
  The fields \<open>time\<close> and \<open>note\<close> of a slot are \<open>slot_time\<close> and \<open>slot_note\<close> here, and the
  field \<open>level\<close> of the editor is \<open>editor_level\<close>; \<open>open\<close> and \<open>_close\<close> are \<open>open_editor\<close> and
  \<open>close_editor\<close>.
\<close>

record PatternSlot =
  slot_time :: rat
  has_marker :: bool
  original_marker :: bool
  slot_note :: "ref option"

record PatternEditor =
  pattern_slots :: "PatternSlot list"
  selected_notes :: "ref list"
  lane_type :: "string option"
  editor_level :: int
  original_notes :: "Note list"
  original_pattern :: string
  grid_step :: rat
  modal_open :: bool
  on_apply_set :: bool
  on_apply_to_all_set :: bool

datatype callback =
    OnApply "Note list" "Note list"
  | OnApplyToAll "Note list" "Note list" nat

definition PatternEditor_init :: "bool \<Rightarrow> bool \<Rightarrow> PatternEditor" where
  "PatternEditor_init apply_set apply_to_all_set =
     \<lparr>pattern_slots = [], selected_notes = [], lane_type = None, editor_level = 1,
      original_notes = [], original_pattern = [], grid_step = 0, modal_open = False,
      on_apply_set = apply_set, on_apply_to_all_set = apply_to_all_set\<rparr>"

definition get_original_pattern_string :: "PatternSlot list \<Rightarrow> string" where
  "get_original_pattern_string slots =
     map (\<lambda>slot. if original_marker slot then CHR ''o'' else CHR ''x'') slots"

definition make_slot :: "heap \<Rightarrow> ref list \<Rightarrow> rat \<Rightarrow> PatternSlot" where
  "make_slot h sel grid_time =
     (let rounded_time = py_round grid_time 3;
          has = (rounded_time \<in> set (map (\<lambda>n. py_round (time (h ! n)) 3) sel))
      in \<lparr>slot_time = rounded_time, has_marker = has, original_marker = has,
          slot_note = find (\<lambda>n. py_round (time (h ! n)) 3 = rounded_time) sel\<rparr>)"

definition open_editor ::
  "PatternEditor \<Rightarrow> heap \<Rightarrow> ref list \<Rightarrow> rat list \<Rightarrow> error + bool \<times> PatternEditor" where
  "open_editor ed h sel grid_times =
     (if sel = [] then Inr (False, ed)
      else if length (remdups (map (\<lambda>n. type (h ! n)) sel)) \<noteq> 1 then Inr (False, ed)
      else case copies (map (\<lambda>n. h ! n) sel) of
          Inl e \<Rightarrow> Inl e
        | Inr originals \<Rightarrow>
            let sorted_grid = sort grid_times;
                ed1 = ed\<lparr>lane_type := Some (type (h ! hd sel)),
                         editor_level := level (h ! hd sel),
                         selected_notes := sel,
                         original_notes := originals,
                         grid_step := (if length sorted_grid \<ge> 2
                                       then py_round (sorted_grid ! 1 - sorted_grid ! 0) 6 else 0),
                         pattern_slots := map (make_slot h sel) sorted_grid\<rparr>
            in if pattern_slots ed1 = [] then Inr (False, ed1)
               else Inr (True, ed1\<lparr>original_pattern := get_original_pattern_string (pattern_slots ed1),
                                   modal_open := True\<rparr>))"

definition close_editor :: "PatternEditor \<Rightarrow> PatternEditor" where
  "close_editor ed =
     ed\<lparr>pattern_slots := [], selected_notes := [], original_notes := [], modal_open := False\<rparr>"

text \<open>The loop that \<open>_on_apply\<close> and \<open>_on_apply_to_all\<close> share: the changes of the selection.\<close>

fun collect_changes ::
  "heap \<Rightarrow> Note list \<Rightarrow> PatternSlot list \<Rightarrow> Note list \<Rightarrow> Note list
     \<Rightarrow> error + Note list \<times> Note list" where
  "collect_changes h originals [] notes_added notes_removed = Inr (notes_added, notes_removed)"
| "collect_changes h originals (slot # slots) notes_added notes_removed =
     (if has_marker slot \<and> \<not> original_marker slot
      then (case slot_note slot of
              None \<Rightarrow> collect_changes h originals slots notes_added notes_removed
            | Some n \<Rightarrow>
                (case copy (h ! n) of
                   Inl e \<Rightarrow> Inl e
                 | Inr c \<Rightarrow> collect_changes h originals slots (notes_added @ [c]) notes_removed))
      else if \<not> has_marker slot \<and> original_marker slot
      then (case find (\<lambda>orig_note. py_round (time orig_note) 3 = py_round (slot_time slot) 3)
                   originals of
              None \<Rightarrow> collect_changes h originals slots notes_added notes_removed
            | Some orig_note \<Rightarrow>
                (case copy orig_note of
                   Inl e \<Rightarrow> Inl e
                 | Inr c \<Rightarrow> collect_changes h originals slots notes_added (notes_removed @ [c])))
      else collect_changes h originals slots notes_added notes_removed)"

definition on_apply ::
  "PatternEditor \<Rightarrow> world \<Rightarrow> error + PatternEditor \<times> world \<times> callback option" where
  "on_apply ed w =
     (case collect_changes (fst w) (original_notes ed) (pattern_slots ed) [] [] of
        Inl e \<Rightarrow> Inl e
      | Inr (notes_added, notes_removed) \<Rightarrow>
          Inr (close_editor ed, w,
               if on_apply_set ed then Some (OnApply notes_added notes_removed) else None))"

type_synonym scan_state = "heap \<times> ref list \<times> (rat \<rightharpoonup> ref) \<times> Note list \<times> Note list"

definition new_note :: "PatternEditor \<Rightarrow> rat \<Rightarrow> error + Note" where
  \<comment> \<open>\<open>Note(time=t, level=self.level, type=self.lane_type)\<close>; \<open>lane_type\<close> is \<open>None\<close> before the
      first \<open>open\<close>, and \<open>None\<close> is not a lane.\<close>
  "new_note ed t =
     (case lane_type ed of None \<Rightarrow> Inl ValueError | Some ty \<Rightarrow> Note_init t (editor_level ed) ty)"

fun transform_slots ::
  "PatternEditor \<Rightarrow> rat \<Rightarrow> (nat \<times> PatternSlot) list \<Rightarrow> scan_state \<Rightarrow> error + scan_state" where
  "transform_slots ed current_time [] st = Inr st"
| "transform_slots ed current_time ((i, slot) # rest) (h, ns, all_note_times, notes_added, notes_removed) =
     (let check_time = py_round (current_time + of_nat i * grid_step ed) 3
      in if has_marker slot \<and> \<not> original_marker slot
         then (if all_note_times check_time = None
               then (case new_note ed check_time of
                       Inl e \<Rightarrow> Inl e
                     | Inr n \<Rightarrow>
                         (case copy n of
                            Inl e \<Rightarrow> Inl e
                          | Inr c \<Rightarrow>
                              transform_slots ed current_time rest
                                (h @ [n], ns @ [length h], all_note_times(check_time \<mapsto> length h),
                                 notes_added @ [c], notes_removed)))
               else transform_slots ed current_time rest
                      (h, ns, all_note_times, notes_added, notes_removed))
         else if \<not> has_marker slot \<and> original_marker slot
         then (case all_note_times check_time of
                 None \<Rightarrow> transform_slots ed current_time rest
                           (h, ns, all_note_times, notes_added, notes_removed)
               | Some note_to_remove \<Rightarrow>
                   (if list_contains h ns note_to_remove
                    then (case copy (h ! note_to_remove) of
                            Inl e \<Rightarrow> Inl e
                          | Inr c \<Rightarrow>
                              transform_slots ed current_time rest
                                (h, list_remove h ns note_to_remove, all_note_times(check_time := None),
                                 notes_added, notes_removed @ [c]))
                    else transform_slots ed current_time rest
                           (h, ns, all_note_times, notes_added, notes_removed)))
         else transform_slots ed current_time rest
                (h, ns, all_note_times, notes_added, notes_removed))"

definition pattern_matches :: "PatternEditor \<Rightarrow> rat \<Rightarrow> (rat \<rightharpoonup> ref) \<Rightarrow> bool" where
  "pattern_matches ed current_time all_note_times \<longleftrightarrow>
     list_all (\<lambda>(i, slot).
         (all_note_times (py_round (current_time + of_nat i * grid_step ed) 3) \<noteq> None)
         = original_marker slot)
       (enumerate 0 (pattern_slots ed))"

lemma scan_measure:
  fixes step :: rat
  assumes "0 < step"
  shows "\<lfloor>(D - pd - (t + step)) / step\<rfloor> + 1 \<le> \<lfloor>(D - pd - t) / step\<rfloor>"
proof -
  have "D - pd - (t + step) = (D - pd - t) - step" by simp
  then have "(D - pd - (t + step)) / step = (D - pd - t) / step - step / step"
    by (simp only: diff_divide_distrib)
  also have "\<dots> = (D - pd - t) / step - 1" using assms by simp
  finally have "\<lfloor>(D - pd - (t + step)) / step\<rfloor> = \<lfloor>(D - pd - t) / step - 1\<rfloor>" by simp
  then show ?thesis by simp
qed

text \<open>
  The scan over the start positions. The source enters the loop only with a positive grid
  step, which the guard of \<open>_on_apply_to_all\<close> ensures; the condition is repeated in the
  loop here, where it makes the recursion terminate.
\<close>

function scan_loop ::
  "PatternEditor \<Rightarrow> rat \<Rightarrow> rat \<Rightarrow> rat \<Rightarrow> rat \<Rightarrow> rat \<Rightarrow> scan_state \<Rightarrow> nat
     \<Rightarrow> error + scan_state \<times> nat" where
  "scan_loop ed duration pattern_duration current_min_time current_max_time current_time st
     matches_count =
     (if 0 < grid_step ed \<and> current_time + pattern_duration \<le> duration
      then (if \<not> (current_time + pattern_duration < current_min_time
                   \<or> current_time > current_max_time)
            then scan_loop ed duration pattern_duration current_min_time current_max_time
                   (current_time + grid_step ed) st matches_count
            else if pattern_matches ed current_time (fst (snd (snd st)))
            then (case transform_slots ed current_time (enumerate 0 (pattern_slots ed)) st of
                    Inl e \<Rightarrow> Inl e
                  | Inr st' \<Rightarrow>
                      scan_loop ed duration pattern_duration current_min_time current_max_time
                        (current_time + grid_step ed) st' (matches_count + 1))
            else scan_loop ed duration pattern_duration current_min_time current_max_time
                   (current_time + grid_step ed) st matches_count)
      else Inr (st, matches_count))"
  by pat_completeness auto

termination
  by (relation "measure (\<lambda>(ed, duration, pattern_duration, current_min_time, current_max_time,
                           current_time, st, matches_count).
                  nat (\<lfloor>(duration - pattern_duration - current_time) / grid_step ed\<rfloor> + 1))")
    (simp_all add: scan_measure)

declare scan_loop.simps [simp del]

definition on_apply_to_all ::
  "PatternEditor \<Rightarrow> world \<Rightarrow> error + PatternEditor \<times> world \<times> callback option" where
  "on_apply_to_all ed w =
     (case w of (h, bm) \<Rightarrow>
        if length (pattern_slots ed) = 0 \<or> grid_step ed \<le> 0 then on_apply ed w
        else
          (case collect_changes h (original_notes ed) (pattern_slots ed) [] [] of
             Inl e \<Rightarrow> Inl e
           | Inr (notes_added, notes_removed) \<Rightarrow>
               let all_notes_in_lane = filter (\<lambda>n. Some (type (h ! n)) = lane_type ed) (notes bm);
                   all_note_times = fold (\<lambda>n m. m(py_round (time (h ! n)) 3 \<mapsto> n))
                                      all_notes_in_lane Map.empty;
                   current_min_time = Min (set (map slot_time (pattern_slots ed))) - 1 / 1000;
                   current_max_time = Max (set (map slot_time (pattern_slots ed))) + 1 / 1000;
                   pattern_duration = of_nat (length (pattern_slots ed) - 1) * grid_step ed
               in (case scan_loop ed (total_duration (meta bm)) pattern_duration current_min_time
                          current_max_time 0
                          (h, notes bm, all_note_times, notes_added, notes_removed) 0 of
                     Inl e \<Rightarrow> Inl e
                   | Inr ((h', ns, m, notes_added', notes_removed'), matches_count) \<Rightarrow>
                       Inr (close_editor ed, (h', bm\<lparr>notes := sort_by_time h' ns\<rparr>),
                            if on_apply_to_all_set ed
                            then Some (OnApplyToAll notes_added' notes_removed' matches_count)
                            else if on_apply_set ed
                            then Some (OnApply notes_added' notes_removed')
                            else None))))"

text \<open>
  The edits of the open modal and the live preview that follows each of them. The preview
  first takes the notes of the slots that were switched off out of the beatmap, then puts a
  new note into the beatmap for each slot that was switched on.
\<close>

fun preview_remove :: "heap \<Rightarrow> PatternSlot list \<Rightarrow> ref list \<Rightarrow> PatternSlot list \<times> ref list" where
  "preview_remove h [] ns = ([], ns)"
| "preview_remove h (slot # slots) ns =
     (case (if \<not> has_marker slot then slot_note slot else None) of
        None \<Rightarrow> (case preview_remove h slots ns of (slots', ns') \<Rightarrow> (slot # slots', ns'))
      | Some n \<Rightarrow>
          (case preview_remove h slots (if list_contains h ns n then list_remove h ns n else ns) of
             (slots', ns') \<Rightarrow> (slot\<lparr>slot_note := None\<rparr> # slots', ns')))"

fun preview_add ::
  "PatternEditor \<Rightarrow> PatternSlot list \<Rightarrow> heap \<Rightarrow> ref list
     \<Rightarrow> error + PatternSlot list \<times> heap \<times> ref list" where
  "preview_add ed [] h ns = Inr ([], h, ns)"
| "preview_add ed (slot # slots) h ns =
     (if has_marker slot \<and> slot_note slot = None
      then (case new_note ed (slot_time slot) of
              Inl e \<Rightarrow> Inl e
            | Inr n \<Rightarrow>
                (case preview_add ed slots (h @ [n\<lparr>selected := True\<rparr>])
                        (sort_by_time (h @ [n]) (ns @ [length h])) of
                   Inl e \<Rightarrow> Inl e
                 | Inr (slots', h', ns') \<Rightarrow> Inr (slot\<lparr>slot_note := Some (length h)\<rparr> # slots', h', ns')))
      else (case preview_add ed slots h ns of
              Inl e \<Rightarrow> Inl e
            | Inr (slots', h', ns') \<Rightarrow> Inr (slot # slots', h', ns')))"

definition update_live_preview :: "PatternEditor \<Rightarrow> world \<Rightarrow> error + PatternEditor \<times> world" where
  "update_live_preview ed w =
     (case w of (h, bm) \<Rightarrow>
        (case preview_remove h (pattern_slots ed) (notes bm) of (slots1, ns1) \<Rightarrow>
           (case preview_add ed slots1 h ns1 of
              Inl e \<Rightarrow> Inl e
            | Inr (slots2, h', ns2) \<Rightarrow> Inr (ed\<lparr>pattern_slots := slots2\<rparr>, (h', bm\<lparr>notes := ns2\<rparr>)))))"

definition toggle_slot :: "PatternEditor \<Rightarrow> int option \<Rightarrow> world \<Rightarrow> error + PatternEditor \<times> world" where
  "toggle_slot ed index w =
     (case index of
        None \<Rightarrow> Inr (ed, w)
      | Some i \<Rightarrow>
          if 0 \<le> i \<and> i < int (length (pattern_slots ed))
          then update_live_preview
                 (ed\<lparr>pattern_slots := (pattern_slots ed)
                        [nat i := (pattern_slots ed ! nat i)
                           \<lparr>has_marker := \<not> has_marker (pattern_slots ed ! nat i)\<rparr>]\<rparr>) w
          else Inr (ed, w))"

definition set_all_on :: "PatternEditor \<Rightarrow> world \<Rightarrow> error + PatternEditor \<times> world" where
  "set_all_on ed w =
     update_live_preview
       (ed\<lparr>pattern_slots := map (\<lambda>slot. slot\<lparr>has_marker := True\<rparr>) (pattern_slots ed)\<rparr>) w"

definition set_all_off :: "PatternEditor \<Rightarrow> world \<Rightarrow> error + PatternEditor \<times> world" where
  "set_all_off ed w =
     update_live_preview
       (ed\<lparr>pattern_slots := map (\<lambda>slot. slot\<lparr>has_marker := False\<rparr>) (pattern_slots ed)\<rparr>) w"

definition invert_pattern :: "PatternEditor \<Rightarrow> world \<Rightarrow> error + PatternEditor \<times> world" where
  "invert_pattern ed w =
     update_live_preview
       (ed\<lparr>pattern_slots := map (\<lambda>slot. slot\<lparr>has_marker := \<not> has_marker slot\<rparr>) (pattern_slots ed)\<rparr>) w"

definition reset_pattern :: "PatternEditor \<Rightarrow> world \<Rightarrow> error + PatternEditor \<times> world" where
  "reset_pattern ed w =
     update_live_preview
       (ed\<lparr>pattern_slots := map (\<lambda>slot. slot\<lparr>has_marker := original_marker slot\<rparr>) (pattern_slots ed)\<rparr>) w"


section \<open>Predicates and runs used by the properties\<close>

text \<open>The notes of the beatmap are in ascending order of their times.\<close>

definition world_sorted :: "world \<Rightarrow> bool" where
  "world_sorted w \<longleftrightarrow> (case w of (h, bm) \<Rightarrow> sorted (map (\<lambda>r. time (h ! r)) (notes bm)))"

text \<open>
  A note that passes the checks of \<open>__post_init__\<close>, and a command whose private copies
  do: every command built by its constructor is of this kind, since the constructor copies.
\<close>

definition valid_note :: "Note \<Rightarrow> bool" where
  "valid_note n \<longleftrightarrow> level n \<in> set [1, 2, 3] \<and> type n \<in> set NOTE_TYPES"

fun well_formed :: "command \<Rightarrow> bool" where
  "well_formed (PatternEditCommand notes_to_add notes_to_remove lane) \<longleftrightarrow>
     list_all valid_note notes_to_add \<and> list_all valid_note notes_to_remove"
| "well_formed (CompositeCommand commands d) \<longleftrightarrow> list_all well_formed commands"
| "well_formed _ \<longleftrightarrow> True"

text \<open>
  Executing a list of commands through the history, one after the other, and calling
  \<open>undo\<close> \<open>k\<close> times, collecting what each call returns.
\<close>

fun execute_all :: "History \<Rightarrow> command list \<Rightarrow> world \<Rightarrow> error + History \<times> world" where
  "execute_all hist [] w = Inr (hist, w)"
| "execute_all hist (c # cs) w =
     (case History_execute hist c w of
        Inl e \<Rightarrow> Inl e
      | Inr (hist', w') \<Rightarrow> execute_all hist' cs w')"

fun undo_times :: "nat \<Rightarrow> History \<Rightarrow> world \<Rightarrow> error + string option list \<times> History \<times> world" where
  "undo_times 0 hist w = Inr ([], hist, w)"
| "undo_times (Suc k) hist w =
     (case History_undo hist w of
        Inl e \<Rightarrow> Inl e
      | Inr (r, hist', w') \<Rightarrow>
          (case undo_times k hist' w' of
             Inl e \<Rightarrow> Inl e
           | Inr (rs, hist'', w'') \<Rightarrow> Inr (r # rs, hist'', w'')))"

text \<open>The note that comes back from the persistent form of a note.\<close>

definition rounded :: "Note \<Rightarrow> Note" where
  "rounded n = \<lparr>time = py_round (time n) 3, level = level n, type = type n, selected = False\<rparr>"

text \<open>
  The notes under \<open>(time, level, type)\<close>, and the clean-up as the specification words it: of
  the notes that share a rounded time, the one of lowest level, the first of them if several
  have it, one group after the other in the order of the times.
\<close>

definition note_key :: "Note \<Rightarrow> rat \<times> int \<times> string" where
  "note_key n = (time n, level n, type n)"

definition first_lowest :: "Note list \<Rightarrow> Note" where
  "first_lowest g = hd (filter (\<lambda>n. level n = Min (set (map level g))) g)"

definition lowest_per_group :: "Note list \<Rightarrow> Note list" where
  "lowest_per_group vs =
     map (\<lambda>k. first_lowest (filter (\<lambda>n. py_round (time n) 3 = k) vs))
       (sorted_list_of_set (set (map (\<lambda>n. py_round (time n) 3) vs)))"

text \<open>What the user does in the open modal, and a sequence of such edits.\<close>

datatype edit = Toggle "int option" | AllOn | AllOff | Invert | Reset

fun apply_edit :: "edit \<Rightarrow> PatternEditor \<times> world \<Rightarrow> error + PatternEditor \<times> world" where
  "apply_edit (Toggle index) (ed, w) = toggle_slot ed index w"
| "apply_edit AllOn (ed, w) = set_all_on ed w"
| "apply_edit AllOff (ed, w) = set_all_off ed w"
| "apply_edit Invert (ed, w) = invert_pattern ed w"
| "apply_edit Reset (ed, w) = reset_pattern ed w"

fun apply_edits :: "edit list \<Rightarrow> PatternEditor \<times> world \<Rightarrow> error + PatternEditor \<times> world" where
  "apply_edits [] s = Inr s"
| "apply_edits (e # es) s = (case apply_edit e s of Inl err \<Rightarrow> Inl err | Inr s' \<Rightarrow> apply_edits es s')"

(*PROPS*)

section \<open>Properties of snap_to_grid\<close>

lemma argmin_first_less: "argmin_first x xs < Suc (length xs)"
  by (induction x xs rule: argmin_first.induct) (auto simp: Let_def)

lemma argmin_first_le: "y \<in> set (x # xs) \<Longrightarrow> (x # xs) ! argmin_first x xs \<le> y"
proof (induction x xs arbitrary: y rule: argmin_first.induct)
  case (1 x)
  then show ?case by simp
next
  case (2 x z zs)
  let ?k = "argmin_first z zs"
  show ?case
  proof (cases "x \<le> (z # zs) ! ?k")
    case True
    have "y = x \<or> y \<in> set (z # zs)" using "2.prems" by auto
    then show ?thesis
    proof
      assume "y = x" with True show ?thesis by (simp add: Let_def)
    next
      assume "y \<in> set (z # zs)"
      from "2.IH" [OF this] True show ?thesis by (simp add: Let_def)
    qed
  next
    case False
    have "y = x \<or> y \<in> set (z # zs)" using "2.prems" by auto
    then show ?thesis
    proof
      assume "y = x" with False show ?thesis by (simp add: Let_def)
    next
      assume "y \<in> set (z # zs)"
      from "2.IH" [OF this] False show ?thesis by (simp add: Let_def)
    qed
  qed
qed

lemma snap_to_grid_member: "grid \<noteq> [] \<Longrightarrow> snap_to_grid t grid \<in> set grid"
proof -
  assume "grid \<noteq> []"
  then obtain g gs where grid: "grid = g # gs" by (cases grid) auto
  have "argmin_first \<bar>g - t\<bar> (map (\<lambda>g. \<bar>g - t\<bar>) gs) < Suc (length (map (\<lambda>g. \<bar>g - t\<bar>) gs))"
    by (rule argmin_first_less)
  then have "argmin_first \<bar>g - t\<bar> (map (\<lambda>g. \<bar>g - t\<bar>) gs) < length grid" by (simp add: grid)
  from nth_mem [OF this]
  have "grid ! argmin_first \<bar>g - t\<bar> (map (\<lambda>g. \<bar>g - t\<bar>) gs) \<in> set grid" .
  moreover have "snap_to_grid t grid = grid ! argmin_first \<bar>g - t\<bar> (map (\<lambda>g. \<bar>g - t\<bar>) gs)"
    by (simp add: snap_to_grid_def grid del: argmin_first.simps)
  ultimately show ?thesis by simp
qed

lemma snap_to_grid_fixed: "s \<in> set grid \<Longrightarrow> snap_to_grid s grid = s"
proof -
  assume mem: "s \<in> set grid"
  then obtain g gs where grid: "grid = g # gs" by (cases grid) auto
  let ?f = "\<lambda>g. \<bar>g - s\<bar>"
  let ?k = "argmin_first (?f g) (map ?f gs)"
  have k: "?k < length grid" using argmin_first_less [of "?f g" "map ?f gs"] by (simp add: grid)
  have "?f s \<in> set (?f g # map ?f gs)" using mem by (auto simp: grid)
  from argmin_first_le [OF this] have "(?f g # map ?f gs) ! ?k \<le> 0" by simp
  moreover have "(?f g # map ?f gs) ! ?k = ?f (grid ! ?k)"
    using k nth_map [of ?k grid ?f] by (simp add: grid)
  ultimately have "grid ! ?k = s" by simp
  then show ?thesis by (simp add: snap_to_grid_def grid del: argmin_first.simps)
qed

text \<open>
  Claim C8. Snapping is idempotent: for every time \<open>t\<close> and every grid, also the empty one,
  snapping the snapped time again returns it unchanged.
\<close>

theorem snap_to_grid_idempotent:
  "snap_to_grid (snap_to_grid t grid) grid = snap_to_grid t grid"
proof (cases "grid = []")
  case True
  then show ?thesis by (simp add: snap_to_grid_def)
next
  case False
  then show ?thesis by (rule snap_to_grid_fixed [OF snap_to_grid_member])
qed

section \<open>Properties of the rounding\<close>

lemma round_half_even_cases: "round_half_even q = \<lfloor>q\<rfloor> \<or> round_half_even q = \<lfloor>q\<rfloor> + 1"
  by (simp add: round_half_even_def Let_def)

lemma round_half_even_mono:
  assumes "a \<le> b"
  shows "round_half_even a \<le> round_half_even b"
proof (cases "\<lfloor>a\<rfloor> < \<lfloor>b\<rfloor>")
  case True
  have "round_half_even a \<le> \<lfloor>a\<rfloor> + 1" using round_half_even_cases [of a] by auto
  moreover have "\<lfloor>b\<rfloor> \<le> round_half_even b" using round_half_even_cases [of b] by auto
  ultimately show ?thesis using True by linarith
next
  case False
  moreover have "\<lfloor>a\<rfloor> \<le> \<lfloor>b\<rfloor>" using assms by (rule floor_mono)
  ultimately have eq: "\<lfloor>a\<rfloor> = \<lfloor>b\<rfloor>" by simp
  then have "a - of_int \<lfloor>a\<rfloor> \<le> b - of_int \<lfloor>b\<rfloor>" using assms by simp
  then show ?thesis
    by (simp add: round_half_even_def Let_def eq)
qed

lemma round_half_even_of_int: "round_half_even (of_int m) = m"
  by (simp add: round_half_even_def)

lemma round_quantum_small: "y < 2 ^ 53 \<Longrightarrow> round_quantum y = round_half_even y"
  by (subst round_quantum.simps) simp

lemma round_quantum_large: "2 ^ 53 \<le> y \<Longrightarrow> round_quantum y = 2 * round_quantum (y / 2)"
  by (subst round_quantum.simps) simp

lemma round_quantum_ge: "2 ^ 53 \<le> y \<Longrightarrow> 2 ^ 53 \<le> round_quantum y"
proof (induction y rule: round_quantum.induct)
  case (1 y)
  have large: "round_quantum y = 2 * round_quantum (y / 2)"
    using "1.prems" by (rule round_quantum_large)
  show ?case
  proof (cases "y / 2 < 2 ^ 53")
    case True
    from "1.prems" have "of_int (2 ^ 52) \<le> y / 2" by simp
    from round_half_even_mono [OF this] have "2 ^ 52 \<le> round_half_even (y / 2)"
      by (simp only: round_half_even_of_int)
    then have "2 ^ 52 \<le> round_quantum (y / 2)"
      using True by (simp only: round_quantum_small)
    then show ?thesis unfolding large by simp
  next
    case False
    then have h: "2 ^ 53 \<le> y / 2" by simp
    have "\<not> y < 2 ^ 53" using "1.prems" by simp
    from "1.IH" [OF this h] show ?thesis unfolding large by simp
  qed
qed

lemma round_quantum_mono: "x \<le> y \<Longrightarrow> round_quantum x \<le> round_quantum y"
proof (induction y arbitrary: x rule: round_quantum.induct)
  case (1 y)
  show ?case
  proof (cases "y < 2 ^ 53")
    case True
    with "1.prems" have "x < 2 ^ 53" by simp
    with True "1.prems" show ?thesis
      by (simp only: round_quantum_small round_half_even_mono)
  next
    case large: False
    then have ly: "2 ^ 53 \<le> y" by simp
    show ?thesis
    proof (cases "x < 2 ^ 53")
      case True
      then have "x \<le> of_int (2 ^ 53)" by simp
      from round_half_even_mono [OF this] have "round_half_even x \<le> 2 ^ 53"
        by (simp only: round_half_even_of_int)
      moreover have "2 ^ 53 \<le> round_quantum y" using ly by (rule round_quantum_ge)
      ultimately show ?thesis using True by (simp only: round_quantum_small)
    next
      case False
      then have lx: "2 ^ 53 \<le> x" by simp
      from "1.prems" have "x / 2 \<le> y / 2" by simp
      from "1.IH" [OF large this] show ?thesis
        by (simp only: round_quantum_large [OF lx] round_quantum_large [OF ly])
    qed
  qed
qed

lemma round_quantum_0: "round_quantum 0 = 0"
proof -
  have "(0::rat) < 2 ^ 53" by simp
  then have "round_quantum 0 = round_half_even 0" by (rule round_quantum_small)
  then show ?thesis by (simp add: round_half_even_def)
qed

lemma round_quantum_nonneg: "0 \<le> y \<Longrightarrow> 0 \<le> round_quantum y"
  using round_quantum_mono [of 0 y] by (simp add: round_quantum_0)

lemma round_quantum_exact:
  "0 \<le> m \<Longrightarrow> m < 2 ^ 53 \<Longrightarrow> round_quantum (of_int m * 2 ^ k) = m * 2 ^ k"
proof (induction k)
  case 0
  from \<open>m < 2 ^ 53\<close> have "(of_int m :: rat) < of_int (2 ^ 53)" by (simp only: of_int_less_iff)
  then have "(of_int m :: rat) < 2 ^ 53" by simp
  then have "round_quantum (of_int m) = round_half_even (of_int m)" by (rule round_quantum_small)
  then show ?case by (simp add: round_half_even_of_int)
next
  case (Suc k)
  have i: "of_int m * 2 ^ Suc k = (of_int (m * 2 ^ Suc k) :: rat)" by simp
  show ?case
  proof (cases "(of_int m :: rat) * 2 ^ Suc k < 2 ^ 53")
    case True
    from round_quantum_small [OF this] show ?thesis
      by (simp only: i round_half_even_of_int)
  next
    case False
    then have "2 ^ 53 \<le> (of_int m :: rat) * 2 ^ Suc k" by simp
    from round_quantum_large [OF this]
    have "round_quantum (of_int m * 2 ^ Suc k) = 2 * round_quantum (of_int m * 2 ^ Suc k / 2)" .
    also have "(of_int m :: rat) * 2 ^ Suc k / 2 = of_int m * 2 ^ k" by simp
    finally show ?thesis using Suc by simp
  qed
qed

lemma round_quantum_scaled:
  "2 ^ 52 * 2 ^ k \<le> y \<Longrightarrow> y < 2 ^ 53 * 2 ^ k \<Longrightarrow>
     round_quantum y = 2 ^ k * round_half_even (y / 2 ^ k)"
proof (induction k arbitrary: y)
  case 0
  then have "y < 2 ^ 53" by simp
  from round_quantum_small [OF this] show ?case by simp
next
  case (Suc k)
  have "(1::rat) \<le> 2 ^ k" by simp
  then have "(2::rat) ^ 53 * 1 \<le> 2 ^ 53 * 2 ^ k" by (intro mult_left_mono) simp_all
  also have "(2::rat) ^ 53 * 2 ^ k = 2 ^ 52 * 2 ^ Suc k" by simp
  finally have "(2::rat) ^ 53 * 1 \<le> 2 ^ 52 * 2 ^ Suc k" .
  from order_trans [OF this Suc.prems(1)] have "2 ^ 53 \<le> y" by simp
  then have "round_quantum y = 2 * round_quantum (y / 2)" by (rule round_quantum_large)
  moreover from Suc.prems have "2 ^ 52 * 2 ^ k \<le> y / 2" "y / 2 < 2 ^ 53 * 2 ^ k" by simp_all
  from Suc.IH [OF this] have "round_quantum (y / 2) = 2 ^ k * round_half_even (y / 2 / 2 ^ k)" .
  moreover have "y / 2 / 2 ^ k = y / 2 ^ Suc k" by simp
  ultimately show ?case by simp
qed

lemma fl_rat_mono: "x \<le> y \<Longrightarrow> fl_rat x \<le> fl_rat y"
proof -
  assume le: "x \<le> y"
  define S :: rat where "S = 2 ^ 1074"
  have S: "0 < S" by (simp add: S_def)
  have nn: "0 \<le> (of_int (round_quantum (\<bar>z\<bar> * S)) :: rat)" for z :: rat
    using S by (simp add: round_quantum_nonneg)
  have f: "fl_rat z = sgn z * of_int (round_quantum (\<bar>z\<bar> * S)) / S" for z
    by (simp only: fl_rat_def S_def)
  consider "0 \<le> x" | "x < 0" "0 \<le> y" | "y < 0" using le by linarith
  then show ?thesis
  proof cases
    case 1
    then have "\<bar>x\<bar> * S \<le> \<bar>y\<bar> * S" using le S by simp
    from round_quantum_mono [OF this]
    have m: "(of_int (round_quantum (\<bar>x\<bar> * S)) :: rat) \<le> of_int (round_quantum (\<bar>y\<bar> * S))"
      by simp
    show ?thesis
    proof (cases "x = 0")
      case True
      have "0 \<le> fl_rat y" unfolding f using 1 le nn [of y] S
        by (cases "y = 0") (simp_all add: sgn_if)
      then show ?thesis using True by (simp add: f)
    next
      case False
      with 1 le have "0 < x" "0 < y" by simp_all
      then show ?thesis unfolding f using m S by (simp add: divide_right_mono)
    qed
  next
    case 2
    have "fl_rat x \<le> 0" unfolding f using 2 nn [of x] S
      by (simp add: sgn_if divide_nonneg_pos)
    moreover have "0 \<le> fl_rat y" unfolding f using 2 nn [of y] S
      by (cases "y = 0") (simp_all add: sgn_if)
    ultimately show ?thesis by simp
  next
    case 3
    then have "\<bar>y\<bar> * S \<le> \<bar>x\<bar> * S" using le S by simp
    from round_quantum_mono [OF this]
    have m: "(of_int (round_quantum (\<bar>y\<bar> * S)) :: rat) \<le> of_int (round_quantum (\<bar>x\<bar> * S))"
      by simp
    from 3 le have "x < 0" "y < 0" by simp_all
    then show ?thesis unfolding f using m S by (simp add: divide_right_mono)
  qed
qed

lemma fl_rat_dyadic:
  assumes "\<bar>m\<bar> < 2 ^ 53" and "j \<le> 1074"
  shows "fl_rat (of_int m / 2 ^ j) = of_int m / 2 ^ j"
proof -
  define k where "k = 1074 - j"
  have p: "(2::rat) ^ 1074 = 2 ^ j * 2 ^ k"
    using assms(2) by (simp add: k_def flip: power_add)
  have "\<bar>of_int m / 2 ^ j :: rat\<bar> * (2 ^ j * 2 ^ k) = of_int \<bar>m\<bar> * 2 ^ k"
    by simp
  moreover have "round_quantum (of_int \<bar>m\<bar> * 2 ^ k) = \<bar>m\<bar> * 2 ^ k"
    using assms(1) by (intro round_quantum_exact) simp_all
  ultimately have "fl_rat (of_int m / 2 ^ j) = sgn (of_int m / 2 ^ j) * of_int (\<bar>m\<bar> * 2 ^ k) / (2 ^ j * 2 ^ k)"
    by (simp only: fl_rat_def p)
  also have "\<dots> = of_int m / 2 ^ j"
    by (auto simp: sgn_if zero_less_divide_iff abs_if)
  finally show ?thesis .
qed

lemma fl_dyadic:
  assumes "\<bar>m\<bar> < 2 ^ 53" and "j \<le> 1074"
  shows "fl (of_int m / 2 ^ j) = Float (of_int m / 2 ^ j)"
proof -
  have "(of_int \<bar>m\<bar> :: rat) < of_int (2 ^ 53)" using assms(1) by (simp only: of_int_less_iff)
  then have "(of_int \<bar>m\<bar> :: rat) < 2 ^ 53" by simp
  moreover have "(of_int \<bar>m\<bar> :: rat) / 2 ^ j \<le> of_int \<bar>m\<bar> / 1"
    by (intro divide_left_mono) simp_all
  moreover have "(2::rat) ^ 53 < 2 ^ 1024" by (rule power_strict_increasing) simp_all
  ultimately have "\<bar>of_int m / 2 ^ j :: rat\<bar> < 2 ^ 1024" by simp
  then show ?thesis
    by (simp only: fl_def Let_def fl_rat_dyadic [OF assms]) simp
qed

lemma round_half_even_eq:
  "of_int r - 1 / 2 < q \<Longrightarrow> q < of_int r + 1 / 2 \<Longrightarrow> round_half_even q = r"
proof -
  assume a: "of_int r - 1 / 2 < q" and b: "q < of_int r + 1 / 2"
  show ?thesis
  proof (cases "of_int r \<le> q")
    case True
    then have "\<lfloor>q\<rfloor> = r" using b by (intro floor_unique) simp_all
    then show ?thesis using b by (simp add: round_half_even_def)
  next
    case False
    then have f: "\<lfloor>q\<rfloor> = r - 1" using a by (intro floor_unique) simp_all
    have "1 / 2 < q - of_int (r - 1)" using a by simp
    then show ?thesis by (simp add: round_half_even_def f)
  qed
qed

lemma fl_round:
  assumes "0 < x"
    and "2 ^ 52 * 2 ^ k \<le> x * 2 ^ 1074" and "x * 2 ^ 1074 < 2 ^ 53 * 2 ^ k"
    and "of_int r - 1 / 2 < x * 2 ^ 1074 / 2 ^ k" and "x * 2 ^ 1074 / 2 ^ k < of_int r + 1 / 2"
    and "(of_int r :: rat) * 2 ^ k / 2 ^ 1074 < 2 ^ 1024"
  shows "fl x = Float (of_int r * 2 ^ k / 2 ^ 1074)"
proof -
  have r: "round_half_even (x * 2 ^ 1074 / 2 ^ k) = r"
    using assms(4,5) by (rule round_half_even_eq)
  have "round_quantum (\<bar>x\<bar> * 2 ^ 1074) = 2 ^ k * round_half_even (\<bar>x\<bar> * 2 ^ 1074 / 2 ^ k)"
    using assms(1,2,3) by (intro round_quantum_scaled) simp_all
  then have q: "round_quantum (\<bar>x\<bar> * 2 ^ 1074) = 2 ^ k * r"
    using assms(1) r by simp
  have "(0::rat) \<le> of_int (round_quantum (\<bar>x\<bar> * 2 ^ 1074))"
    using assms(1) by (simp add: round_quantum_nonneg)
  then have "(0::rat) \<le> of_int r * 2 ^ k" unfolding q by (simp add: mult.commute)
  then have n: "(0::rat) \<le> of_int r * 2 ^ k / 2 ^ 1074" by simp
  have f: "fl_rat x = of_int r * 2 ^ k / 2 ^ 1074"
    unfolding fl_rat_def q using assms(1) by (simp add: mult.commute)
  show ?thesis
    unfolding fl_def Let_def f using assms(6) n by (simp only: abs_of_nonneg) simp
qed

lemma DEFAULT_REARM_RATIO_value:
  "DEFAULT_REARM_RATIO = Float (3152519739159347 / 4503599627370496)"
  unfolding DEFAULT_REARM_RATIO_def
  using fl_round [of "7 / 10" 1021 6305039478318694] by simp

lemma MIN_PEAK_GAP_SECONDS_value:
  "MIN_PEAK_GAP_SECONDS = Float (3602879701896397 / 72057594037927936)"
  unfolding MIN_PEAK_GAP_SECONDS_def
  using fl_round [of "5 / 100" 1017 7205759403792794] by simp

lemma default_rearm_percent: "fmul (Float 50) DEFAULT_REARM_RATIO = Float 35"
  unfolding DEFAULT_REARM_RATIO_value
  using fl_round [of "50 * (3152519739159347 / 4503599627370496)" 1027 4925812092436480] by simp

lemma fl_0: "fl 0 = Float 0"
  using fl_dyadic [of 0 0] by simp

lemma fl_1: "fl 1 = Float 1"
  using fl_dyadic [of 1 0] by simp

lemma fl_numeral: "(numeral n :: int) < 2 ^ 53 \<Longrightarrow> fl (numeral n) = Float (numeral n)"
  using fl_dyadic [of "numeral n" 0] by simp

lemma fl_neg_numeral: "(numeral n :: int) < 2 ^ 53 \<Longrightarrow> fl (- numeral n) = Float (- numeral n)"
  using fl_dyadic [of "- numeral n" 0] by simp

lemma fl_neg_1: "fl (- 1) = Float (- 1)"
  using fl_dyadic [of "- 1" 0] by simp

lemmas fl_ints = fl_0 fl_1 fl_numeral fl_neg_numeral fl_neg_1

lemma fl_fractions:
  "fl (5 / 2) = Float (5 / 2)" "fl (7 / 2) = Float (7 / 2)"
  "fl (1 / 4) = Float (1 / 4)" "fl (3 / 4) = Float (3 / 4)"
  "fl (3 / 64) = Float (3 / 64)" "fl (3 / 128) = Float (3 / 128)" "fl (9 / 128) = Float (9 / 128)"
  "fl (3602879701896397 / 72057594037927936) = Float (3602879701896397 / 72057594037927936)"
  using fl_dyadic [of 5 1] fl_dyadic [of 7 1] fl_dyadic [of 1 2] fl_dyadic [of 3 2]
    fl_dyadic [of 3 6] fl_dyadic [of 3 7] fl_dyadic [of 9 7] fl_dyadic [of 3602879701896397 56]
  by simp_all

lemma fl_rat_power:
  assumes "\<bar>m\<bar> < 2 ^ 53"
  shows "fl_rat (of_int m * 2 ^ k) = of_int m * 2 ^ k"
proof -
  have "\<bar>of_int m * 2 ^ k :: rat\<bar> * 2 ^ 1074 = of_int \<bar>m\<bar> * 2 ^ (k + 1074)"
    by (simp add: power_add abs_mult)
  moreover have "round_quantum (of_int \<bar>m\<bar> * 2 ^ (k + 1074)) = \<bar>m\<bar> * 2 ^ (k + 1074)"
    using assms by (intro round_quantum_exact) simp_all
  ultimately have "fl_rat (of_int m * 2 ^ k)
      = sgn (of_int m * 2 ^ k) * of_int (\<bar>m\<bar> * 2 ^ (k + 1074)) / 2 ^ 1074"
    by (simp only: fl_rat_def)
  also have "\<dots> = of_int m * 2 ^ k"
    by (auto simp: sgn_if zero_less_mult_iff abs_if power_add)
  finally show ?thesis .
qed

lemma fl_overflow: "2 ^ 1024 \<le> x \<Longrightarrow> fl x = PosInf"
proof -
  assume x: "2 ^ 1024 \<le> x"
  have "fl_rat (of_int 1 * 2 ^ 1024) = of_int 1 * 2 ^ 1024" by (rule fl_rat_power) simp
  then have "fl_rat (2 ^ 1024) = 2 ^ 1024" by simp
  with fl_rat_mono [OF x] have "2 ^ 1024 \<le> fl_rat x" by simp
  moreover have "(0::rat) < 2 ^ 1024" by simp
  ultimately have "2 ^ 1024 \<le> \<bar>fl_rat x\<bar>" "0 < x" using x by linarith+
  then show ?thesis by (simp add: fl_def Let_def inf_of_def)
qed

section \<open>Properties of detect_peaks\<close>

lemma scan_region_le:
  "scan_region rms threshold j peak_val peak_idx = (p, j') \<Longrightarrow> j \<le> length rms \<Longrightarrow> j' \<le> length rms"
proof (induction rms threshold j peak_val peak_idx rule: scan_region.induct)
  case (1 rms threshold j peak_val peak_idx)
  note unfold = scan_region.simps [of rms threshold j peak_val peak_idx]
  show ?case
  proof (cases "j < length rms \<and> fle threshold (rms ! j)")
    case False
    with "1.prems" show ?thesis by (auto simp: unfold)
  next
    case in_region: True
    show ?thesis
    proof (cases "flt peak_val (rms ! j)")
      case True
      with in_region "1.prems"
      have "scan_region rms threshold (j + 1) (rms ! j) j = (p, j')" by (simp add: unfold)
      from "1.IH"(1) [OF in_region True this] in_region show ?thesis by simp
    next
      case False
      with in_region "1.prems"
      have "scan_region rms threshold (j + 1) peak_val peak_idx = (p, j')" by (simp add: unfold)
      from "1.IH"(2) [OF in_region False this] in_region show ?thesis by simp
    qed
  qed
qed

lemma detect_loop_elems:
  "t \<in> set (detect_loop rms threshold rearm_threshold min_gap_samples duration i armed last_peak_sample peaks)
   \<Longrightarrow> t \<in> set peaks \<or> (\<exists>p < length rms. t = fmul (true_divide p (length rms)) duration)"
proof (induction rms threshold rearm_threshold min_gap_samples duration i armed last_peak_sample peaks
    rule: detect_loop.induct)
  case (1 rms threshold rearm_threshold min_gap_samples duration i armed last_peak_sample peaks)
  show ?case
  proof (cases "i < length rms")
    case False
    with "1.prems" show ?thesis by (subst (asm) detect_loop.simps) simp
  next
    case i: True
    show ?thesis
    proof (cases armed)
      case False
      with i "1.prems"
      have "t \<in> set (detect_loop rms threshold rearm_threshold min_gap_samples duration (i + 1)
                (flt (rms ! i) rearm_threshold) last_peak_sample peaks)"
        by (subst (asm) detect_loop.simps) simp
      from "1.IH"(4) [OF i False this] show ?thesis .
    next
      case armed: True
      show ?thesis
      proof (cases "fle threshold (rms ! i)")
        case False
        with i armed "1.prems"
        have "t \<in> set (detect_loop rms threshold rearm_threshold min_gap_samples duration (i + 1)
                  armed last_peak_sample peaks)"
          by (subst (asm) detect_loop.simps) simp
        from "1.IH"(3) [OF i armed False this] show ?thesis .
      next
        case above: True
        obtain peak_idx j where sr: "scan_region rms threshold (i + 1) (rms ! i) i = (peak_idx, j)"
          by (cases "scan_region rms threshold (i + 1) (rms ! i) i") auto
        from scan_region_bounds [OF sr] have "peak_idx < j" by simp
        moreover from scan_region_le [OF sr] i have "j \<le> length rms" by simp
        ultimately have p: "peak_idx < length rms" by simp
        show ?thesis
        proof (cases "min_gap_samples \<le> int peak_idx - last_peak_sample")
          case False
          with i armed above sr "1.prems"
          have "t \<in> set (detect_loop rms threshold rearm_threshold min_gap_samples duration j
                    False last_peak_sample peaks)"
            by (subst (asm) detect_loop.simps) simp
          from "1.IH"(2) [OF i armed above sr [symmetric] False this] show ?thesis .
        next
          case accept: True
          with i armed above sr "1.prems"
          have "t \<in> set (detect_loop rms threshold rearm_threshold min_gap_samples duration j
                    False (int peak_idx) (peaks @ [fmul (true_divide peak_idx (length rms)) duration]))"
            by (subst (asm) detect_loop.simps) simp
          from "1.IH"(1) [OF i armed above sr [symmetric] accept this] p show ?thesis by auto
        qed
      qed
    qed
  qed
qed

lemma fl_rat_0: "fl_rat 0 = 0"
  by (simp add: fl_rat_def)

lemma fl_rat_1: "fl_rat 1 = 1"
  using fl_rat_dyadic [of 1 0] by simp

lemma fl_FloatD: "fl x = Float y \<Longrightarrow> fl_rat x = y \<and> \<bar>y\<bar> < 2 ^ 1024"
  by (auto simp: fl_def Let_def inf_of_def split: if_splits)

lemma fl_bounded: "\<bar>fl_rat x\<bar> < 2 ^ 1024 \<Longrightarrow> fl x = Float (fl_rat x)"
  by (simp add: fl_def Let_def)

lemma true_divide_unit:
  assumes "p < n"
  shows "\<exists>q. true_divide p n = Float q \<and> 0 \<le> q \<and> q \<le> 1"
proof -
  let ?x = "of_nat p / of_nat n :: rat"
  from assms have "0 \<le> ?x" "?x \<le> 1" by simp_all
  from fl_rat_mono [OF this(1)] fl_rat_mono [OF this(2)]
  have b: "0 \<le> fl_rat ?x" "fl_rat ?x \<le> 1" by (simp_all only: fl_rat_0 fl_rat_1)
  have "(1::rat) < 2 ^ 1024" by (rule one_less_power) simp_all
  with b have "\<bar>fl_rat ?x\<bar> < 2 ^ 1024" by simp
  from fl_bounded [OF this] b show ?thesis by (simp add: true_divide_def)
qed

lemma peak_time_bounds:
  assumes "fl d = Float d" and "d \<le> 0" and "p < n"
  shows "\<exists>y. fmul (true_divide p n) (Float d) = Float y \<and> d \<le> y \<and> y \<le> 0"
proof -
  from fl_FloatD [OF assms(1)] have d: "fl_rat d = d" "\<bar>d\<bar> < 2 ^ 1024" by simp_all
  from true_divide_unit [OF assms(3)] obtain q
    where q: "true_divide p n = Float q" "0 \<le> q" "q \<le> 1" by blast
  from mult_nonneg_nonpos [OF q(2) assms(2)] have u: "q * d \<le> 0" .
  from q(3) have "0 \<le> 1 - q" by simp
  from mult_nonneg_nonpos [OF this assms(2)] have l: "d \<le> q * d" by (simp add: algebra_simps)
  from fl_rat_mono [OF l] fl_rat_mono [OF u]
  have b: "d \<le> fl_rat (q * d)" "fl_rat (q * d) \<le> 0" by (simp_all only: d(1) fl_rat_0)
  with d(2) assms(2) have "\<bar>fl_rat (q * d)\<bar> < 2 ^ 1024" by simp
  from fl_bounded [OF this] b show ?thesis by (simp add: q(1))
qed

lemma detect_peaks_elems:
  assumes "detect_peaks waveform_data duration thr min_gap_seconds rearm = Inr ts" and "t \<in> set ts"
  shows "\<exists>p < length (waveform_rms waveform_data).
           t = fmul (true_divide p (length (waveform_rms waveform_data))) duration"
proof -
  from assms obtain th re mg
    where "t \<in> set (detect_loop (waveform_rms waveform_data) th re mg duration 0 True (- mg) [])"
    by (auto simp: detect_peaks_def Let_def split: if_splits sum.splits)
  from detect_loop_elems [OF this] show ?thesis by simp
qed

lemma detect_peaks_nonpositive_total:
  assumes "\<not> flt (Float 0) duration" and "finite_float min_gap_seconds"
  shows "\<exists>ts. detect_peaks waveform_data duration thr min_gap_seconds rearm = Inr ts"
proof -
  from assms(2) obtain g where g: "min_gap_seconds = Float g" "fl g = Float g"
    by (cases min_gap_seconds) simp_all
  then have "int_of_float (fmul min_gap_seconds (Float 1)) = Inr (py_int g)" by simp
  with assms(1) show ?thesis by (simp add: detect_peaks_def Let_def)
qed

text \<open>
  The envelope \<open>[0, 10, 0, 10]\<close> with the threshold at 50 percent: the two samples of value 10
  are two peaks, at the indices 1 and 3.
\<close>

lemma peaks_of_negative_duration:
  "detect_peaks [(''rms'', [Float 0, Float 10, Float 0, Float 10])] (Float (- 4)) (Float 50)
     MIN_PEAK_GAP_SECONDS None = Inr [Float (- 1), Float (- 3)]"
  by (simp add: detect_peaks_def waveform_rms_def np_max_def np_min_def fsub_def
      default_rearm_percent MIN_PEAK_GAP_SECONDS_value float_of_nat_def true_divide_def py_int_def
      fl_fractions fl_ints detect_loop.simps scan_region.simps)

text \<open>
  Two runs in which the floats matter. With the smallest positive float as the duration,
  \<open>num_samples / duration\<close> overflows to infinity and \<open>int\<close> raises \<open>OverflowError\<close>. With
  10 samples over 1 second and a minimum gap of \<open>0.2\<close>, the gap is exactly 2 samples, and the
  two peaks, 2 samples apart, get the times \<open>0.1\<close> and \<open>0.3\<close>, whose difference as floats is
  below \<open>0.2\<close>.
\<close>

lemma tiny_duration_overflows:
  "finite_float (Float (1 / 2 ^ 1074))
   \<and> detect_peaks [(''rms'', [Float 0, Float 10, Float 0, Float 10])] (Float (1 / 2 ^ 1074)) (Float 50)
        (Float (5 / 2)) None = Inl OverflowError"
proof -
  have "fl (of_int 1 / 2 ^ 1074) = Float (of_int 1 / 2 ^ 1074)" by (rule fl_dyadic) simp_all
  then have f: "fl (1 / 2 ^ 1074) = Float (1 / 2 ^ 1074)" by simp
  have "(2::rat) ^ 1024 \<le> 4 * 2 ^ 1074"
  proof -
    have "(2::rat) ^ 1024 \<le> 2 ^ 1074" by (rule power_increasing) simp_all
    then show ?thesis by simp
  qed
  then have o: "fl (4 * 2 ^ 1074) = PosInf" by (rule fl_overflow)
  have "detect_peaks [(''rms'', [Float 0, Float 10, Float 0, Float 10])] (Float (1 / 2 ^ 1074)) (Float 50)
        (Float (5 / 2)) None = Inl OverflowError"
    using o
    by (simp add: detect_peaks_def waveform_rms_def np_max_def np_min_def fsub_def
        default_rearm_percent float_of_nat_def inf_of_def fl_fractions fl_ints)
  with f show ?thesis by simp
qed

lemma rounded_times_below_gap:
  "detect_peaks [(''rms'', [Float 0, Float 10, Float 0, Float 10, Float 0, Float 0, Float 0, Float 0,
                            Float 0, Float 0])] (Float 1) (Float 50) (fl (2 / 10)) None
     = Inr [fl (1 / 10), fl (3 / 10)]
   \<and> flt (fsub (fl (3 / 10)) (fl (1 / 10))) (fl (2 / 10))"
proof -
  have a: "fl (1 / 10) = Float (3602879701896397 / 36028797018963968)"
    using fl_round [of "1 / 10" 1018 7205759403792794] by simp
  have b: "fl (3 / 10) = Float (5404319552844595 / 18014398509481984)"
    using fl_round [of "3 / 10" 1020 5404319552844595] by simp
  have c: "fl (2 / 10) = Float (3602879701896397 / 18014398509481984)"
    using fl_round [of "2 / 10" 1019 7205759403792794] by simp
  have c': "fl (1 / 5) = Float (3602879701896397 / 18014398509481984)"
    using c by simp
  have g: "fl (3602879701896397 / 18014398509481984 * 10) = Float 2"
    using fl_round [of "3602879701896397 / 18014398509481984 * 10" 1023 4503599627370496] by simp
  have e: "fl (3602879701896397 / 36028797018963968) = Float (3602879701896397 / 36028797018963968)"
    "fl (5404319552844595 / 18014398509481984) = Float (5404319552844595 / 18014398509481984)"
    "fl (7205759403792793 / 36028797018963968) = Float (7205759403792793 / 36028797018963968)"
    using fl_dyadic [of 3602879701896397 55] fl_dyadic [of 5404319552844595 54]
      fl_dyadic [of 7205759403792793 55] by simp_all
  have "detect_peaks [(''rms'', [Float 0, Float 10, Float 0, Float 10, Float 0, Float 0, Float 0, Float 0,
                            Float 0, Float 0])] (Float 1) (Float 50) (fl (2 / 10)) None
     = Inr [fl (1 / 10), fl (3 / 10)]"
    using g
    by (simp add: a b c' e detect_peaks_def waveform_rms_def np_max_def np_min_def fsub_def
        default_rearm_percent float_of_nat_def true_divide_def py_int_def fl_fractions fl_ints
        detect_loop.simps scan_region.simps)
  moreover have "flt (fsub (fl (3 / 10)) (fl (1 / 10))) (fl (2 / 10))"
    using e by (simp add: a b c' fsub_def)
  ultimately show ?thesis by simp
qed

text \<open>
  Claim C3 fails on the code. \<open>detect_peaks\<close> documents \<open>min_gap_seconds\<close> as the minimum gap
  between peaks in seconds, but it enforces the gap on sample indices, with
  \<open>int(min_gap_seconds * samples_per_second)\<close> samples, and \<open>int\<close> truncates. On the envelope
  \<open>[0, 10, 0, 10]\<close> over 4 seconds with a minimum gap of 2.5 seconds the gap is 2 samples, and
  the peaks at 1 s and 3 s are both returned, 2 seconds apart. The editor's own call has the
  same effect: with this envelope over 3/32 s, \<open>_update_peaks\<close> turns its gap of 0.05 s into
  2 samples and stores two peaks that are 3/64 s apart, which is less than 0.05 s.
\<close>

theorem detect_peaks_gap_below_minimum:
  "detect_peaks [(''rms'', [Float 0, Float 10, Float 0, Float 10])] (Float 4) (Float 50)
      (Float (5 / 2)) None = Inr [Float 1, Float 3]
   \<and> fsub (Float 3) (Float 1) = Float 2
   \<and> flt (Float 2) (Float (5 / 2))
   \<and> update_peaks \<lparr>enabled = True, threshold_percent = Float 50, rearm_threshold_percent = Float 35,
                    linked = True\<rparr>
        (Some [(''rms'', [Float 0, Float 10, Float 0, Float 10])]) (Float (3 / 32))
      = Inr [Float (3 / 128), Float (9 / 128)]
   \<and> fsub (Float (9 / 128)) (Float (3 / 128)) = Float (3 / 64)
   \<and> flt (Float (3 / 64)) MIN_PEAK_GAP_SECONDS"
proof -
  have direct: "detect_peaks [(''rms'', [Float 0, Float 10, Float 0, Float 10])] (Float 4) (Float 50)
      (Float (5 / 2)) None = Inr [Float 1, Float 3]"
    by (simp add: detect_peaks_def waveform_rms_def np_max_def np_min_def fsub_def
        default_rearm_percent float_of_nat_def true_divide_def py_int_def fl_fractions fl_ints
        detect_loop.simps scan_region.simps)
  have s: "fl (128 / 3) = Float (6004799503160661 / 140737488355328)"
    using fl_round [of "128 / 3" 1027 6004799503160661] by simp
  have g: "fl (3602879701896397 / 72057594037927936 * (6004799503160661 / 140737488355328))
             = Float (4803839602528529 / 2251799813685248)"
    using fl_round [of "3602879701896397 / 72057594037927936 * (6004799503160661 / 140737488355328)"
        1023 4803839602528529] by simp
  have i: "py_int (4803839602528529 / 2251799813685248) = 2"
    unfolding py_int_def by (simp, rule floor_unique) simp_all
  have editor: "update_peaks \<lparr>enabled = True, threshold_percent = Float 50,
                    rearm_threshold_percent = Float 35, linked = True\<rparr>
        (Some [(''rms'', [Float 0, Float 10, Float 0, Float 10])]) (Float (3 / 32))
      = Inr [Float (3 / 128), Float (9 / 128)]"
    using g
    by (simp add: update_peaks_def detect_peaks_def waveform_rms_def np_max_def np_min_def fsub_def
        default_rearm_percent MIN_PEAK_GAP_SECONDS_value float_of_nat_def true_divide_def i s
        fl_fractions fl_ints detect_loop.simps scan_region.simps)
  have "fsub (Float 3) (Float 1) = Float 2" by (simp add: fsub_def fl_ints)
  moreover have "fsub (Float (9 / 128)) (Float (3 / 128)) = Float (3 / 64)"
    by (simp add: fsub_def fl_fractions)
  moreover have "flt (Float (3 / 64)) MIN_PEAK_GAP_SECONDS"
    by (simp add: MIN_PEAK_GAP_SECONDS_value)
  ultimately show ?thesis using direct editor by simp
qed

text \<open>
  Claim C4 as stated fails: with a duration of \<open>-4\<close> the non-constant envelope \<open>[0, 10, 0, 10]\<close>
  yields two peaks. \<open>detect_peaks\<close> takes one sample per second when the duration is not
  positive and goes on.
\<close>

theorem detect_peaks_nonpositive_duration_counterexample:
  "detect_peaks [(''rms'', [Float 0, Float 10, Float 0, Float 10])] (Float (- 4)) (Float 50)
     MIN_PEAK_GAP_SECONDS None \<noteq> Inr []"
  by (simp add: peaks_of_negative_duration)

text \<open>
  Claim C4, as the code has it. When the duration is a finite float \<open>\<le> 0\<close> and
  \<open>min_gap_seconds\<close> is a finite float, \<open>detect_peaks\<close> raises nothing: \<open>int\<close>, its one raising
  operation, is applied to \<open>min_gap_seconds * 1\<close>. It returns a list of times that need not be
  empty: every time in it is the float \<open>(p / len(rms)) * duration\<close> of a sample index \<open>p\<close>, and
  lies between the duration and 0. The empty result for such a duration is produced by the
  caller, \<open>_update_peaks\<close>, which stores no peaks without calling \<open>detect_peaks\<close>.
\<close>

theorem nonpositive_duration_peaks:
  assumes "finite_float duration" and "fle duration (Float 0)" and "finite_float min_gap_seconds"
  shows "update_peaks settings waveform_data duration = Inr []
    \<and> (\<exists>ts. detect_peaks wd duration thr min_gap_seconds rearm = Inr ts
          \<and> (\<forall>t \<in> set ts.
                (\<exists>p < length (waveform_rms wd). t = fmul (true_divide p (length (waveform_rms wd))) duration)
                \<and> fle duration t \<and> fle t (Float 0)))"
proof -
  from assms(1) obtain d where d: "duration = Float d" "fl d = Float d"
    by (cases duration) simp_all
  from assms(2) d have neg: "d \<le> 0" by simp
  then have n: "\<not> flt (Float 0) duration" by (simp add: d)
  have u: "update_peaks settings waveform_data duration = Inr []"
    using assms(2) by (simp add: update_peaks_def split: option.splits)
  from detect_peaks_nonpositive_total [OF n assms(3)] obtain ts
    where ts: "detect_peaks wd duration thr min_gap_seconds rearm = Inr ts" by blast
  have "(\<exists>p < length (waveform_rms wd). t = fmul (true_divide p (length (waveform_rms wd))) duration)
          \<and> fle duration t \<and> fle t (Float 0)" if t: "t \<in> set ts" for t
  proof -
    from detect_peaks_elems [OF ts t] obtain p
      where p: "p < length (waveform_rms wd)"
        "t = fmul (true_divide p (length (waveform_rms wd))) duration" by blast
    from peak_time_bounds [OF d(2) neg p(1)] obtain y
      where "t = Float y" "d \<le> y" "y \<le> 0" unfolding p(2) d(1) by blast
    then have "fle duration t \<and> fle t (Float 0)" by (simp add: d(1))
    with p show ?thesis by blast
  qed
  with u ts show ?thesis by blast
qed

theorem nonpositive_duration_peaks_witness:
  "finite_float (Float (- 4)) \<and> fle (Float (- 4)) (Float 0) \<and> finite_float MIN_PEAK_GAP_SECONDS
    \<and> update_peaks \<lparr>enabled = True, threshold_percent = Float 50, rearm_threshold_percent = Float 35,
                     linked = True\<rparr>
          (Some [(''rms'', [Float 0, Float 10, Float 0, Float 10])]) (Float (- 4)) = Inr []
    \<and> detect_peaks [(''rms'', [Float 0, Float 10, Float 0, Float 10])] (Float (- 4)) (Float 50)
          MIN_PEAK_GAP_SECONDS None = Inr [Float (- 1), Float (- 3)]
    \<and> fmul (true_divide 1 4) (Float (- 4)) = Float (- 1)
    \<and> fmul (true_divide 3 4) (Float (- 4)) = Float (- 3)
    \<and> list_all (\<lambda>t. fle (Float (- 4)) t \<and> fle t (Float 0)) [Float (- 1), Float (- 3)]"
proof -
  have h: "finite_float (Float (- 4))" "fle (Float (- 4)) (Float 0)"
    "finite_float MIN_PEAK_GAP_SECONDS"
    by (simp_all add: fl_ints fl_fractions MIN_PEAK_GAP_SECONDS_value)
  have t: "fmul (true_divide 1 4) (Float (- 4)) = Float (- 1)"
    "fmul (true_divide 3 4) (Float (- 4)) = Float (- 3)"
    by (simp_all add: true_divide_def fl_fractions fl_ints)
  from nonpositive_duration_peaks [OF h,
      of "\<lparr>enabled = True, threshold_percent = Float 50, rearm_threshold_percent = Float 35,
            linked = True\<rparr>"
         "Some [(''rms'', [Float 0, Float 10, Float 0, Float 10])]"
         "[(''rms'', [Float 0, Float 10, Float 0, Float 10])]" "Float 50" None]
    h t peaks_of_negative_duration
  show ?thesis by simp
qed

section \<open>The notes stay sorted\<close>

lemma sorted_sort_by_time: "sorted (map (\<lambda>r. time (h ! r)) (sort_by_time h rs))"
  by (simp add: sort_by_time_def)

lemma set_list_remove: "set (list_remove h xs n) \<subseteq> set xs"
  by (induction xs) auto

lemma sorted_list_remove:
  "sorted (map f xs) \<Longrightarrow> sorted (map f (list_remove h xs n))"
  using set_list_remove [of h _ n] by (induction xs) auto

lemma world_sorted_resort: "world_sorted (resort w)"
  by (cases w) (simp add: resort_def world_sorted_def mark_dirty_def sorted_sort_by_time)

lemma sorted_add_note: "world_sorted (h, add_note h bm n)"
  by (simp add: world_sorted_def add_note_def sorted_sort_by_time)

lemma sorted_fold_add_note:
  "world_sorted (h, bm) \<Longrightarrow> world_sorted (h, fold (\<lambda>note b. add_note h b note) ns bm)"
  by (induction ns arbitrary: bm) (simp_all add: sorted_add_note)

lemma sorted_remove_note: "world_sorted (h, bm) \<Longrightarrow> world_sorted (h, remove_note h bm n)"
  by (simp add: world_sorted_def remove_note_def sorted_list_remove)

lemma sorted_remove_loop:
  "sorted (map f (notes bm)) \<Longrightarrow>
   sorted (map f (notes (fold (\<lambda>note b. if list_contains h (notes b) note
                      then b\<lparr>notes := list_remove h (notes b) note\<rparr> else b) ns bm)))"
  by (induction ns arbitrary: bm) (simp_all add: sorted_list_remove)

lemma sorted_remove_notes: "world_sorted (h, bm) \<Longrightarrow> world_sorted (h, remove_notes h bm ns)"
  by (simp add: world_sorted_def remove_notes_def sorted_remove_loop)

lemma time_set_level: "time (set_level h n l ! r) = time (h ! r)"
  by (cases "n < length h") (simp_all add: set_level_def nth_list_update list_update_beyond)

lemma time_fold_set_level:
  "time (fold (\<lambda>note h. set_level h note l) ns h ! r) = time (h ! r)"
  by (induction ns arbitrary: h) (simp_all add: time_set_level)

lemma time_fold_set_levels:
  "time (fold (\<lambda>(note, l) h. set_level h note l) nls h ! r) = time (h ! r)"
  by (induction nls arbitrary: h) (auto simp: time_set_level)

lemma fold_sum_Inl:
  "fold (\<lambda>cmd r. case r of Inl e \<Rightarrow> Inl e | Inr w' \<Rightarrow> f cmd w') cs (Inl e) = Inl e"
  by (induction cs) simp_all

lemma sorted_fold_commands:
  assumes step: "\<And>c w w'. c \<in> set cs \<Longrightarrow> f c w = Inr w' \<Longrightarrow> P w \<Longrightarrow> P w'"
  shows "fold (\<lambda>cmd r. case r of Inl e \<Rightarrow> Inl e | Inr w' \<Rightarrow> f cmd w') cs (Inr w) = Inr w'
    \<Longrightarrow> P w \<Longrightarrow> P w'"
  using step
proof (induction cs arbitrary: w)
  case Nil
  then show ?case by simp
next
  case (Cons c cs)
  show ?case
  proof (cases "f c w")
    case (Inl e)
    with Cons.prems(1) show ?thesis by (simp add: fold_sum_Inl)
  next
    case (Inr w1)
    from Cons.prems(3) [of c w w1] Inr Cons.prems(2) have pw1: "P w1" by simp
    from Cons.prems(1) Inr
    have f1: "fold (\<lambda>cmd r. case r of Inl e \<Rightarrow> Inl e | Inr w' \<Rightarrow> f cmd w') cs (Inr w1) = Inr w'"
      by simp
    have st: "\<And>c w w'. c \<in> set cs \<Longrightarrow> f c w = Inr w' \<Longrightarrow> P w \<Longrightarrow> P w'"
      using Cons.prems(3) by (meson list.set_intros(2))
    show ?thesis by (rule Cons.IH [OF f1 pw1 st])
  qed
qed


lemma Command_execute_sorted:
  "Command_execute c w = Inr w' \<Longrightarrow> world_sorted w \<Longrightarrow> world_sorted w'"
proof (induction c arbitrary: w w')
  case (CompositeCommand cs d)
  have "\<And>c w w'. c \<in> set cs \<Longrightarrow> Command_execute c w = Inr w' \<Longrightarrow> world_sorted w \<Longrightarrow> world_sorted w'"
    using CompositeCommand.IH by blast
  from sorted_fold_commands [of cs Command_execute world_sorted, OF this] CompositeCommand.prems
  show ?case by simp
next
  case (PatternEditCommand adds removes lane)
  then show ?case
    by (auto simp: pattern_apply_def world_sorted_resort split: prod.splits sum.splits)
next
  case (AddNoteCommand n)
  then show ?case by (cases w) (auto simp: sorted_add_note)
next
  case (AddNotesCommand ns)
  then show ?case by (cases w) (auto simp: sorted_fold_add_note)
next
  case (RemoveNoteCommand n)
  then show ?case by (cases w) (auto simp: sorted_remove_note)
next
  case (RemoveNotesCommand ns)
  then show ?case by (cases w) (auto simp: sorted_remove_notes)
next
  case (MoveNoteCommand n ot nt oty nty)
  then show ?case by (cases w) (auto simp: world_sorted_resort)
next
  case (ChangeLevelCommand n ol nl)
  then show ?case by (cases w) (auto simp: world_sorted_def mark_dirty_def time_set_level)
next
  case (ChangeLevelsCommand ns ols nl)
  then show ?case by (cases w) (auto simp: world_sorted_def mark_dirty_def time_fold_set_level)
next
  case (SnapNotesCommand ns ots nts)
  then show ?case by (cases w) (auto simp: world_sorted_resort)
next
  case (MoveNotesCommand ns ots otys nts ntys d)
  then show ?case by (cases w) (auto simp: world_sorted_resort)
next
  case (CleanupDuplicatesCommand ns)
  then show ?case by (cases w) (auto simp: sorted_remove_notes)
qed


lemma Command_undo_sorted:
  "Command_undo c w = Inr w' \<Longrightarrow> world_sorted w \<Longrightarrow> world_sorted w'"
proof (induction c arbitrary: w w')
  case (CompositeCommand cs d)
  have "\<And>c w w'. c \<in> set (rev cs) \<Longrightarrow> Command_undo c w = Inr w' \<Longrightarrow> world_sorted w \<Longrightarrow> world_sorted w'"
    using CompositeCommand.IH by auto
  from sorted_fold_commands [of "rev cs" Command_undo world_sorted, OF this] CompositeCommand.prems
  show ?case by simp
next
  case (PatternEditCommand adds removes lane)
  then show ?case
    by (auto simp: pattern_apply_def world_sorted_resort split: prod.splits sum.splits)
next
  case (AddNoteCommand n)
  then show ?case by (cases w) (auto simp: sorted_remove_note)
next
  case (AddNotesCommand ns)
  then show ?case by (cases w) (auto simp: sorted_remove_notes)
next
  case (RemoveNoteCommand n)
  then show ?case by (cases w) (auto simp: sorted_add_note)
next
  case (RemoveNotesCommand ns)
  then show ?case by (cases w) (auto simp: sorted_fold_add_note)
next
  case (MoveNoteCommand n ot nt oty nty)
  then show ?case by (cases w) (auto simp: world_sorted_resort)
next
  case (ChangeLevelCommand n ol nl)
  then show ?case by (cases w) (auto simp: world_sorted_def mark_dirty_def time_set_level)
next
  case (ChangeLevelsCommand ns ols nl)
  then show ?case by (cases w) (auto simp: world_sorted_def mark_dirty_def time_fold_set_levels)
next
  case (SnapNotesCommand ns ots nts)
  then show ?case by (cases w) (auto simp: world_sorted_resort)
next
  case (MoveNotesCommand ns ots otys nts ntys d)
  then show ?case by (cases w) (auto simp: world_sorted_resort)
next
  case (CleanupDuplicatesCommand ns)
  then show ?case by (cases w) (auto simp: sorted_fold_add_note)
qed

text \<open>
  Claim C6. Every mutating operation of the beatmap and the \<open>execute\<close> and \<open>undo\<close> of every
  command map a beatmap whose notes are sorted by time to one whose notes are sorted by time.
\<close>

theorem mutations_keep_notes_sorted:
  assumes "world_sorted (h, bm)"
  shows "world_sorted (h, add_note h bm n)
    \<and> world_sorted (h, remove_note h bm n)
    \<and> world_sorted (h, remove_notes h bm ns)
    \<and> world_sorted (h, set_notes h bm ns)
    \<and> world_sorted (h, Beatmap_clear bm)
    \<and> (\<forall>w'. Command_execute c (h, bm) = Inr w' \<longrightarrow> world_sorted w')
    \<and> (\<forall>w'. Command_undo c (h, bm) = Inr w' \<longrightarrow> world_sorted w')"
proof -
  have "world_sorted (h, set_notes h bm ns)"
    by (simp add: world_sorted_def set_notes_def sorted_sort_by_time)
  moreover have "world_sorted (h, Beatmap_clear bm)"
    by (simp add: world_sorted_def Beatmap_clear_def)
  ultimately show ?thesis
    using assms sorted_add_note [of h bm n] sorted_remove_note [of h bm n]
      sorted_remove_notes [of h bm ns] Command_execute_sorted [of c "(h, bm)"]
      Command_undo_sorted [of c "(h, bm)"]
    by blast
qed

theorem mutations_keep_notes_sorted_witness:
  "world_sorted ([\<lparr>time = 1, level = 1, type = ''base'', selected = False\<rparr>,
                  \<lparr>time = 2, level = 2, type = ''drum'', selected = False\<rparr>],
                 \<lparr>meta = BeatmapMeta_default, notes = [0, 1], dirty = False\<rparr>)
   \<and> Command_execute (MoveNoteCommand 0 1 3 ''base'' ''base'')
         ([\<lparr>time = 1, level = 1, type = ''base'', selected = False\<rparr>,
           \<lparr>time = 2, level = 2, type = ''drum'', selected = False\<rparr>],
          \<lparr>meta = BeatmapMeta_default, notes = [0, 1], dirty = False\<rparr>)
       = Inr ([\<lparr>time = 3, level = 1, type = ''base'', selected = False\<rparr>,
               \<lparr>time = 2, level = 2, type = ''drum'', selected = False\<rparr>],
              \<lparr>meta = BeatmapMeta_default, notes = [1, 0], dirty = True\<rparr>)
   \<and> world_sorted ([\<lparr>time = 3, level = 1, type = ''base'', selected = False\<rparr>,
                      \<lparr>time = 2, level = 2, type = ''drum'', selected = False\<rparr>],
                     \<lparr>meta = BeatmapMeta_default, notes = [1, 0], dirty = True\<rparr>)
   \<and> Command_undo (ChangeLevelCommand 1 2 3)
         ([\<lparr>time = 1, level = 1, type = ''base'', selected = False\<rparr>,
           \<lparr>time = 2, level = 2, type = ''drum'', selected = False\<rparr>],
          \<lparr>meta = BeatmapMeta_default, notes = [0, 1], dirty = False\<rparr>)
       = Inr ([\<lparr>time = 1, level = 1, type = ''base'', selected = False\<rparr>,
               \<lparr>time = 2, level = 2, type = ''drum'', selected = False\<rparr>],
              \<lparr>meta = BeatmapMeta_default, notes = [0, 1], dirty = True\<rparr>)"
proof -
  let ?h = "[\<lparr>time = 1, level = 1, type = ''base'', selected = False\<rparr>,
             \<lparr>time = 2, level = 2, type = ''drum'', selected = False\<rparr>]"
  let ?bm = "\<lparr>meta = BeatmapMeta_default, notes = [0, 1], dirty = False\<rparr>"
  have s: "world_sorted (?h, ?bm)" by (simp add: world_sorted_def)
  have e: "Command_execute (MoveNoteCommand 0 1 3 ''base'' ''base'') (?h, ?bm)
       = Inr ([\<lparr>time = 3, level = 1, type = ''base'', selected = False\<rparr>,
               \<lparr>time = 2, level = 2, type = ''drum'', selected = False\<rparr>],
              \<lparr>meta = BeatmapMeta_default, notes = [1, 0], dirty = True\<rparr>)"
    by (simp add: resort_def set_time_type_def mark_dirty_def sort_by_time_def)
  have u: "Command_undo (ChangeLevelCommand 1 2 3) (?h, ?bm)
       = Inr (?h, \<lparr>meta = BeatmapMeta_default, notes = [0, 1], dirty = True\<rparr>)"
    by (simp add: set_level_def mark_dirty_def)
  from mutations_keep_notes_sorted [OF s, of 0 "[]" "MoveNoteCommand 0 1 3 ''base'' ''base''"] e
  have "world_sorted ([\<lparr>time = 3, level = 1, type = ''base'', selected = False\<rparr>,
                      \<lparr>time = 2, level = 2, type = ''drum'', selected = False\<rparr>],
                     \<lparr>meta = BeatmapMeta_default, notes = [1, 0], dirty = True\<rparr>)"
    by blast
  with s e u show ?thesis by simp
qed

section \<open>The dirty flag on removal\<close>

lemma list_remove_first:
  "list_contains h xs n \<Longrightarrow>
     \<exists>ys y zs. xs = ys @ y # zs \<and> (y = n \<or> note_eq (h ! y) (h ! n))
        \<and> \<not> list_contains h ys n \<and> list_remove h xs n = ys @ zs"
proof (induction xs)
  case Nil
  then show ?case by (simp add: list_contains_def)
next
  case (Cons x xs)
  show ?case
  proof (cases "x = n \<or> note_eq (h ! x) (h ! n)")
    case True
    then have "x # xs = [] @ x # xs \<and> (x = n \<or> note_eq (h ! x) (h ! n))
        \<and> \<not> list_contains h [] n \<and> list_remove h (x # xs) n = [] @ xs"
      by (simp add: list_contains_def)
    then show ?thesis by blast
  next
    case False
    with Cons.prems have "list_contains h xs n" by (simp add: list_contains_def)
    from Cons.IH [OF this] obtain ys y zs
      where "xs = ys @ y # zs" "y = n \<or> note_eq (h ! y) (h ! n)"
        "\<not> list_contains h ys n" "list_remove h xs n = ys @ zs" by blast
    with False have "x # xs = (x # ys) @ y # zs \<and> (y = n \<or> note_eq (h ! y) (h ! n))
        \<and> \<not> list_contains h (x # ys) n \<and> list_remove h (x # xs) n = (x # ys) @ zs"
      by (simp add: list_contains_def)
    then show ?thesis by blast
  qed
qed

lemma remove_loop_absent:
  "\<forall>n \<in> set ns. \<not> list_contains h (notes bm) n \<Longrightarrow>
    fold (\<lambda>note b. if list_contains h (notes b) note
                      then b\<lparr>notes := list_remove h (notes b) note\<rparr> else b) ns bm = bm"
  by (induction ns) simp_all

text \<open>
  Claim C10. \<open>remove_notes\<close> leaves the dirty flag set whatever the list is, also when no
  note of the list is in the beatmap and the notes stay as they were. \<open>remove_note\<close> sets the
  flag exactly when it removes a note: the flag is set afterwards if and only if it was set
  before or the note sequence has changed, and the sequence changes by the removal of one
  element, the first that is the note or equals it. When the sequence is unchanged the whole
  beatmap, flag included, is unchanged.
\<close>

theorem remove_notes_always_dirty:
  "dirty (remove_notes h bm ns)
    \<and> ((\<forall>n \<in> set ns. \<not> list_contains h (notes bm) n) \<longrightarrow> notes (remove_notes h bm ns) = notes bm)
    \<and> (dirty (remove_note h bm n) \<longleftrightarrow> dirty bm \<or> list_contains h (notes bm) n)
    \<and> (\<not> list_contains h (notes bm) n \<longrightarrow> remove_note h bm n = bm)
    \<and> (dirty (remove_note h bm n) \<longleftrightarrow> dirty bm \<or> notes (remove_note h bm n) \<noteq> notes bm)
    \<and> (notes (remove_note h bm n) \<noteq> notes bm \<longrightarrow>
          (\<exists>ys y zs. notes bm = ys @ y # zs \<and> (y = n \<or> note_eq (h ! y) (h ! n))
              \<and> \<not> list_contains h ys n \<and> notes (remove_note h bm n) = ys @ zs))
    \<and> (notes (remove_note h bm n) = notes bm \<longrightarrow> remove_note h bm n = bm)"
proof -
  have absent: "remove_note h bm n = bm" if "\<not> list_contains h (notes bm) n"
    using that by (simp add: remove_note_def)
  have present: "\<exists>ys y zs. notes bm = ys @ y # zs \<and> (y = n \<or> note_eq (h ! y) (h ! n))
              \<and> \<not> list_contains h ys n \<and> notes (remove_note h bm n) = ys @ zs"
    if c: "list_contains h (notes bm) n"
    using list_remove_first [OF c] c by (simp add: remove_note_def)
  have changed: "notes (remove_note h bm n) \<noteq> notes bm \<longleftrightarrow> list_contains h (notes bm) n"
  proof
    assume "notes (remove_note h bm n) \<noteq> notes bm"
    then show "list_contains h (notes bm) n" by (rule contrapos_np) (simp add: absent)
  next
    assume "list_contains h (notes bm) n"
    from present [OF this] obtain ys y zs
      where "notes bm = ys @ y # zs" "notes (remove_note h bm n) = ys @ zs" by blast
    then have "length (notes (remove_note h bm n)) \<noteq> length (notes bm)" by simp
    then show "notes (remove_note h bm n) \<noteq> notes bm" by auto
  qed
  have d: "dirty (remove_note h bm n) \<longleftrightarrow> dirty bm \<or> list_contains h (notes bm) n"
    by (simp add: remove_note_def)
  have "dirty (remove_notes h bm ns)" by (simp add: remove_notes_def)
  moreover have "(\<forall>n \<in> set ns. \<not> list_contains h (notes bm) n) \<longrightarrow> notes (remove_notes h bm ns) = notes bm"
    by (simp add: remove_notes_def remove_loop_absent)
  moreover note d
  moreover have "\<not> list_contains h (notes bm) n \<longrightarrow> remove_note h bm n = bm" using absent by simp
  moreover have "dirty (remove_note h bm n) \<longleftrightarrow> dirty bm \<or> notes (remove_note h bm n) \<noteq> notes bm"
    using d changed by simp
  moreover have "notes (remove_note h bm n) \<noteq> notes bm \<longrightarrow>
          (\<exists>ys y zs. notes bm = ys @ y # zs \<and> (y = n \<or> note_eq (h ! y) (h ! n))
              \<and> \<not> list_contains h ys n \<and> notes (remove_note h bm n) = ys @ zs)"
    using present changed by simp
  moreover have "notes (remove_note h bm n) = notes bm \<longrightarrow> remove_note h bm n = bm"
    using absent changed by auto
  ultimately show ?thesis by blast
qed

theorem remove_notes_always_dirty_witness:
  "dirty (remove_notes [\<lparr>time = 1, level = 1, type = ''base'', selected = False\<rparr>,
                        \<lparr>time = 2, level = 2, type = ''drum'', selected = False\<rparr>]
            \<lparr>meta = BeatmapMeta_default, notes = [0], dirty = False\<rparr> [1])
   \<and> notes (remove_notes [\<lparr>time = 1, level = 1, type = ''base'', selected = False\<rparr>,
                          \<lparr>time = 2, level = 2, type = ''drum'', selected = False\<rparr>]
            \<lparr>meta = BeatmapMeta_default, notes = [0], dirty = False\<rparr> [1]) = [0]
   \<and> \<not> list_contains [\<lparr>time = 1, level = 1, type = ''base'', selected = False\<rparr>,
                        \<lparr>time = 2, level = 2, type = ''drum'', selected = False\<rparr>] [0] 1
   \<and> remove_note [\<lparr>time = 1, level = 1, type = ''base'', selected = False\<rparr>,
                   \<lparr>time = 2, level = 2, type = ''drum'', selected = False\<rparr>]
         \<lparr>meta = BeatmapMeta_default, notes = [0], dirty = False\<rparr> 1
       = \<lparr>meta = BeatmapMeta_default, notes = [0], dirty = False\<rparr>
   \<and> list_contains [\<lparr>time = 1, level = 1, type = ''base'', selected = False\<rparr>,
                      \<lparr>time = 2, level = 2, type = ''drum'', selected = False\<rparr>] [0] 0
   \<and> remove_note [\<lparr>time = 1, level = 1, type = ''base'', selected = False\<rparr>,
                   \<lparr>time = 2, level = 2, type = ''drum'', selected = False\<rparr>]
         \<lparr>meta = BeatmapMeta_default, notes = [0], dirty = False\<rparr> 0
       = \<lparr>meta = BeatmapMeta_default, notes = [], dirty = True\<rparr>"
proof -
  let ?h = "[\<lparr>time = 1, level = 1, type = ''base'', selected = False\<rparr>,
             \<lparr>time = 2, level = 2, type = ''drum'', selected = False\<rparr>]"
  let ?bm = "\<lparr>meta = BeatmapMeta_default, notes = [0], dirty = False\<rparr>"
  have c: "\<not> list_contains ?h (notes ?bm) 1" "\<forall>n \<in> set [1]. \<not> list_contains ?h (notes ?bm) n"
    "list_contains ?h (notes ?bm) 0"
    by (simp_all add: list_contains_def note_eq_def)
  have r: "remove_note ?h ?bm 0 = \<lparr>meta = BeatmapMeta_default, notes = [], dirty = True\<rparr>"
    by (simp add: remove_note_def list_contains_def)
  from remove_notes_always_dirty [of ?h ?bm "[1]" 1] remove_notes_always_dirty [of ?h ?bm "[1]" 0] c r
  show ?thesis by simp
qed

section \<open>The bound of the history\<close>

lemma copy_valid: "valid_note n \<Longrightarrow> copy n = Inr \<lparr>time = time n, level = level n, type = type n, selected = False\<rparr>"
  by (simp add: copy_def Note_init_def valid_note_def)

lemma append_copies_total:
  "list_all valid_note ns \<Longrightarrow> \<exists>h' rs'. append_copies h rs ns = Inr (h', rs')"
  by (induction ns arbitrary: h rs) (simp_all add: copy_valid)

lemma pattern_apply_total:
  "list_all valid_note to_add \<Longrightarrow> \<exists>w'. pattern_apply to_remove to_add w = Inr w'"
proof -
  assume v: "list_all valid_note to_add"
  obtain h bm where w: "w = (h, bm)" by (cases w)
  from append_copies_total [OF v]
  obtain h' rs' where
    "append_copies h (fold (\<lambda>note ns. remove_matching h ns note) to_remove (notes bm)) to_add = Inr (h', rs')"
    by blast
  then show ?thesis by (simp add: pattern_apply_def w)
qed

lemma fold_commands_total:
  assumes "\<And>c w. c \<in> set cs \<Longrightarrow> \<exists>w'. f c w = Inr w'"
  shows "\<exists>w'. fold (\<lambda>cmd r. case r of Inl e \<Rightarrow> Inl e | Inr w' \<Rightarrow> f cmd w') cs (Inr w) = Inr w'"
  using assms
proof (induction cs arbitrary: w)
  case Nil
  then show ?case by simp
next
  case (Cons c cs)
  from Cons.prems [of c w] obtain w1 where w1: "f c w = Inr w1" by auto
  have "\<And>c w. c \<in> set cs \<Longrightarrow> \<exists>w'. f c w = Inr w'" using Cons.prems by simp
  from Cons.IH [OF this, of w1] w1 show ?case by simp
qed



lemma Command_execute_total: "well_formed c \<Longrightarrow> \<exists>w'. Command_execute c w = Inr w'"
proof (induction c arbitrary: w)
  case (CompositeCommand cs d)
  have "\<And>c w. c \<in> set cs \<Longrightarrow> \<exists>w'. Command_execute c w = Inr w'"
    using CompositeCommand by (simp add: list_all_iff)
  from fold_commands_total [of cs Command_execute, OF this] show ?case by simp
next
  case (PatternEditCommand adds removes lane)
  then show ?case using pattern_apply_total [of adds removes w] by auto
next
  case (AddNoteCommand n)
  show ?case by (cases w) simp
next
  case (AddNotesCommand ns)
  show ?case by (cases w) simp
next
  case (RemoveNoteCommand n)
  show ?case by (cases w) simp
next
  case (RemoveNotesCommand ns)
  show ?case by (cases w) simp
next
  case (MoveNoteCommand n ot nt oty nty)
  show ?case by (cases w) simp
next
  case (ChangeLevelCommand n ol nl)
  show ?case by (cases w) simp
next
  case (ChangeLevelsCommand ns ols nl)
  show ?case by (cases w) simp
next
  case (SnapNotesCommand ns ots nts)
  show ?case by (cases w) simp
next
  case (MoveNotesCommand ns ots otys nts ntys d)
  show ?case by (cases w) simp
next
  case (CleanupDuplicatesCommand ns)
  show ?case by (cases w) simp
qed



lemma Command_undo_total: "well_formed c \<Longrightarrow> \<exists>w'. Command_undo c w = Inr w'"
proof (induction c arbitrary: w)
  case (CompositeCommand cs d)
  have "\<And>c w. c \<in> set (rev cs) \<Longrightarrow> \<exists>w'. Command_undo c w = Inr w'"
    using CompositeCommand by (simp add: list_all_iff)
  from fold_commands_total [of "rev cs" Command_undo, OF this] show ?case by simp
next
  case (PatternEditCommand adds removes lane)
  then show ?case using pattern_apply_total [of removes adds w] by auto
next
  case (AddNoteCommand n)
  show ?case by (cases w) simp
next
  case (AddNotesCommand ns)
  show ?case by (cases w) simp
next
  case (RemoveNoteCommand n)
  show ?case by (cases w) simp
next
  case (RemoveNotesCommand ns)
  show ?case by (cases w) simp
next
  case (MoveNoteCommand n ot nt oty nty)
  show ?case by (cases w) simp
next
  case (ChangeLevelCommand n ol nl)
  show ?case by (cases w) simp
next
  case (ChangeLevelsCommand ns ols nl)
  show ?case by (cases w) simp
next
  case (SnapNotesCommand ns ots nts)
  show ?case by (cases w) simp
next
  case (MoveNotesCommand ns ots otys nts ntys d)
  show ?case by (cases w) simp
next
  case (CleanupDuplicatesCommand ns)
  show ?case by (cases w) simp
qed



lemma trim_stack_nonneg: "0 \<le> ms \<Longrightarrow> trim_stack ms st = Inr (drop (length st - nat ms) st)"
proof (induction st)
  case Nil
  then show ?case by simp
next
  case (Cons c cs)
  show ?case
  proof (cases "int (length (c # cs)) > ms")
    case True
    then have "length (c # cs) - nat ms = Suc (length cs - nat ms)" using Cons.prems by auto
    with True Cons show ?thesis by simp
  next
    case False
    then have "length (c # cs) - nat ms = 0" by auto
    with False show ?thesis by simp
  qed
qed



lemma History_execute_total:
  assumes "0 \<le> max_size hist" and "well_formed c"
  shows "\<exists>w'. History_execute hist c w =
           Inr (hist\<lparr>undo_stack := drop (Suc (length (undo_stack hist)) - nat (max_size hist))
                                      (undo_stack hist @ [c]),
                     redo_stack := []\<rparr>, w')"
proof -
  from Command_execute_total [OF assms(2)] obtain w' where "Command_execute c w = Inr w'" by blast
  then show ?thesis
    by (simp add: History_execute_def History_record_def trim_stack_nonneg [OF assms(1)])
qed
lemma drop_suffix_step:
  assumes "length st \<le> N"
  shows "drop (length (drop (Suc (length st) - N) (st @ [c]) @ cs) - N)
           (drop (Suc (length st) - N) (st @ [c]) @ cs)
         = drop (length (st @ c # cs) - N) (st @ c # cs)"
proof (cases "length st < N")
  case True
  then have "Suc (length st) - N = 0" by simp
  then show ?thesis by simp
next
  case False
  with assms have eq: "length st = N" by simp
  then have one: "Suc (length st) - N = Suc 0" by simp
  show ?thesis
  proof (cases st)
    case Nil
    with eq show ?thesis by simp
  next
    case (Cons x st')
    with eq have n: "N = Suc (length st')" by simp
    show ?thesis unfolding one by (simp add: Cons n)
  qed
qed

lemma execute_all_total:
  assumes "0 \<le> max_size hist" and "list_all well_formed cs"
    and "length (undo_stack hist) \<le> nat (max_size hist)"
  shows "\<exists>hist' w'. execute_all hist cs w = Inr (hist', w') \<and> max_size hist' = max_size hist
           \<and> undo_stack hist' = drop (length (undo_stack hist @ cs) - nat (max_size hist))
                                   (undo_stack hist @ cs)"
  using assms
proof (induction cs arbitrary: hist w)
  case Nil
  then show ?case by simp
next
  case (Cons c cs)
  let ?N = "nat (max_size hist)"
  let ?st = "undo_stack hist"
  let ?st1 = "drop (Suc (length ?st) - ?N) (?st @ [c])"
  let ?hist1 = "hist\<lparr>undo_stack := ?st1, redo_stack := []\<rparr>"
  from Cons.prems have wf: "well_formed c" "list_all well_formed cs" by simp_all
  from History_execute_total [OF Cons.prems(1) wf(1), of w]
  obtain w1 where e1: "History_execute hist c w = Inr (?hist1, w1)" by blast
  have m1: "0 \<le> max_size ?hist1" using Cons.prems(1) by simp
  have l1: "length (undo_stack ?hist1) \<le> nat (max_size ?hist1)" by simp
  from Cons.IH [OF m1 wf(2) l1, of w1]
  obtain hist' w' where r: "execute_all ?hist1 cs w1 = Inr (hist', w')"
    and rm: "max_size hist' = max_size ?hist1"
    and ru: "undo_stack hist' = drop (length (undo_stack ?hist1 @ cs) - nat (max_size ?hist1))
                           (undo_stack ?hist1 @ cs)"
    by blast
  have ea: "execute_all hist (c # cs) w = Inr (hist', w')" using e1 r by simp
  have "undo_stack hist' = drop (length (?st1 @ cs) - ?N) (?st1 @ cs)" using ru by simp
  also have "\<dots> = drop (length (?st @ c # cs) - ?N) (?st @ c # cs)"
    by (rule drop_suffix_step [OF Cons.prems(3)])
  finally have "undo_stack hist' = drop (length (?st @ c # cs) - ?N) (?st @ c # cs)" .
  moreover have "max_size hist' = max_size hist" using rm by simp
  ultimately show ?case using ea by blast
qed

lemma History_undo_empty:
  "undo_stack hist = [] \<Longrightarrow> History_undo hist w = Inr (None, hist, w)"
  by (simp add: History_undo_def)

lemma History_undo_nonempty:
  assumes "undo_stack hist \<noteq> []" and "well_formed (last (undo_stack hist))"
  shows "\<exists>d w'. History_undo hist w =
           Inr (Some d, hist\<lparr>undo_stack := butlast (undo_stack hist),
                              redo_stack := redo_stack hist @ [last (undo_stack hist)]\<rparr>, w')"
proof -
  from Command_undo_total [OF assms(2)]
  obtain w' where "Command_undo (last (undo_stack hist)) w = Inr w'" by blast
  with assms(1) show ?thesis by (simp add: History_undo_def Let_def)
qed

lemma undo_times_results:
  assumes "list_all well_formed (undo_stack hist)"
  shows "\<exists>rs hist' w'. undo_times k hist w = Inr (rs, hist', w')
           \<and> map (\<lambda>r. r \<noteq> None) rs
               = replicate (min k (length (undo_stack hist))) True
                 @ replicate (k - length (undo_stack hist)) False"
  using assms
proof (induction k arbitrary: hist w)
  case 0
  then show ?case by simp
next
  case (Suc k)
  show ?case
  proof (cases "undo_stack hist = []")
    case True
    from Suc.IH [OF Suc.prems, of w] True
    obtain rs hist' w' where "undo_times k hist w = Inr (rs, hist', w')"
      "map (\<lambda>r. r \<noteq> None) rs = replicate k False" by auto
    with True show ?thesis by (simp add: History_undo_empty)
  next
    case False
    let ?hist1 = "hist\<lparr>undo_stack := butlast (undo_stack hist),
                         redo_stack := redo_stack hist @ [last (undo_stack hist)]\<rparr>"
    from False Suc.prems have "well_formed (last (undo_stack hist))"
      by (simp add: list_all_iff)
    from History_undo_nonempty [OF False this, of w]
    obtain d w1 where u: "History_undo hist w = Inr (Some d, ?hist1, w1)" by blast
    have "list_all well_formed (undo_stack ?hist1)"
      using Suc.prems by (auto simp: list_all_iff dest: in_set_butlastD)
    from Suc.IH [OF this, of w1]
    obtain rs hist' w' where r: "undo_times k ?hist1 w1 = Inr (rs, hist', w')"
      and m: "map (\<lambda>r. r \<noteq> None) rs
            = replicate (min k (length (undo_stack ?hist1))) True
              @ replicate (k - length (undo_stack ?hist1)) False"
      by blast
    from False obtain n where n: "length (undo_stack hist) = Suc n"
      by (cases "undo_stack hist") auto
    have "undo_times (Suc k) hist w = Inr (Some d # rs, hist', w')" using u r by simp
    moreover have "map (\<lambda>r. r \<noteq> None) (Some d # rs)
        = replicate (min (Suc k) (length (undo_stack hist))) True
          @ replicate (Suc k - length (undo_stack hist)) False"
      using m n by simp
    ultimately show ?thesis by blast
  qed
qed

text \<open>
  Claim C2. On a new history of bound \<open>N\<close>, after \<open>N + 5\<close> commands have been executed the
  undo stack holds the last \<open>N\<close> of them, the first five are gone; \<open>undo\<close> then returns a
  description \<open>N\<close> times and \<open>None\<close> at the next call.
\<close>

theorem history_bound:
  assumes "0 \<le> N" and "length cmds = nat N + 5" and "list_all well_formed cmds"
  shows "\<exists>hist' w' rs hist'' w''.
           execute_all (History_init N) cmds w = Inr (hist', w')
         \<and> undo_stack hist' = drop 5 cmds
         \<and> undo_times (nat N + 1) hist' w' = Inr (rs, hist'', w'')
         \<and> map (\<lambda>r. r \<noteq> None) rs = replicate (nat N) True @ [False]"
proof -
  have "0 \<le> max_size (History_init N)" "length (undo_stack (History_init N)) \<le> nat (max_size (History_init N))"
    using assms(1) by (simp_all add: History_init_def)
  from execute_all_total [OF this(1) assms(3) this(2), of w]
  obtain hist' w' where e: "execute_all (History_init N) cmds w = Inr (hist', w')"
    and u: "undo_stack hist' = drop (length cmds - nat N) cmds"
    by (auto simp: History_init_def)
  from u assms(2) have u5: "undo_stack hist' = drop 5 cmds" by simp
  then have len: "length (undo_stack hist') = nat N" using assms(2) by simp
  have "list_all well_formed (undo_stack hist')"
    using assms(3) u5 by (auto simp: list_all_iff dest: in_set_dropD)
  from undo_times_results [OF this, of "nat N + 1" w']
  obtain rs hist'' w'' where "undo_times (nat N + 1) hist' w' = Inr (rs, hist'', w'')"
    "map (\<lambda>r. r \<noteq> None) rs = replicate (nat N) True @ [False]"
    using len by auto
  with e u5 show ?thesis by blast
qed

theorem history_bound_witness:
  "(0 :: int) \<le> 1
   \<and> length (replicate 6 (AddNoteCommand 0)) = nat 1 + 5
   \<and> list_all well_formed (replicate 6 (AddNoteCommand 0))
   \<and> execute_all (History_init 1) (replicate 6 (AddNoteCommand 0))
         ([\<lparr>time = 1, level = 1, type = ''base'', selected = False\<rparr>],
          \<lparr>meta = BeatmapMeta_default, notes = [], dirty = False\<rparr>)
       = Inr (\<lparr>undo_stack = [AddNoteCommand 0], redo_stack = [], max_size = 1\<rparr>,
              [\<lparr>time = 1, level = 1, type = ''base'', selected = False\<rparr>],
              \<lparr>meta = BeatmapMeta_default, notes = [0, 0, 0, 0, 0, 0], dirty = True\<rparr>)
   \<and> undo_times 2 \<lparr>undo_stack = [AddNoteCommand 0], redo_stack = [], max_size = 1\<rparr>
         ([\<lparr>time = 1, level = 1, type = ''base'', selected = False\<rparr>],
          \<lparr>meta = BeatmapMeta_default, notes = [0, 0, 0, 0, 0, 0], dirty = True\<rparr>)
       = Inr ([Some ''Add base note at 1.000s'', None],
              \<lparr>undo_stack = [], redo_stack = [AddNoteCommand 0], max_size = 1\<rparr>,
              [\<lparr>time = 1, level = 1, type = ''base'', selected = False\<rparr>],
              \<lparr>meta = BeatmapMeta_default, notes = [0, 0, 0, 0, 0], dirty = True\<rparr>)
   \<and> (\<exists>hist' w' rs hist'' w''.
         execute_all (History_init 1) (replicate 6 (AddNoteCommand 0))
           ([\<lparr>time = 1, level = 1, type = ''base'', selected = False\<rparr>],
            \<lparr>meta = BeatmapMeta_default, notes = [], dirty = False\<rparr>) = Inr (hist', w')
       \<and> undo_stack hist' = drop 5 (replicate 6 (AddNoteCommand 0))
       \<and> undo_times (nat 1 + 1) hist' w' = Inr (rs, hist'', w'')
       \<and> map (\<lambda>r. r \<noteq> None) rs = replicate (nat 1) True @ [False])"
proof -
  have h: "(0 :: int) \<le> 1" "length (replicate 6 (AddNoteCommand 0)) = nat 1 + 5"
    "list_all well_formed (replicate 6 (AddNoteCommand 0))"
    by (simp_all add: list_all_iff)
  have e: "execute_all (History_init 1) (replicate 6 (AddNoteCommand 0))
         ([\<lparr>time = 1, level = 1, type = ''base'', selected = False\<rparr>],
          \<lparr>meta = BeatmapMeta_default, notes = [], dirty = False\<rparr>)
       = Inr (\<lparr>undo_stack = [AddNoteCommand 0], redo_stack = [], max_size = 1\<rparr>,
              [\<lparr>time = 1, level = 1, type = ''base'', selected = False\<rparr>],
              \<lparr>meta = BeatmapMeta_default, notes = [0, 0, 0, 0, 0, 0], dirty = True\<rparr>)"
    by code_simp
  have u: "undo_times 2 \<lparr>undo_stack = [AddNoteCommand 0], redo_stack = [], max_size = 1\<rparr>
         ([\<lparr>time = 1, level = 1, type = ''base'', selected = False\<rparr>],
          \<lparr>meta = BeatmapMeta_default, notes = [0, 0, 0, 0, 0, 0], dirty = True\<rparr>)
       = Inr ([Some ''Add base note at 1.000s'', None],
              \<lparr>undo_stack = [], redo_stack = [AddNoteCommand 0], max_size = 1\<rparr>,
              [\<lparr>time = 1, level = 1, type = ''base'', selected = False\<rparr>],
              \<lparr>meta = BeatmapMeta_default, notes = [0, 0, 0, 0, 0], dirty = True\<rparr>)"
    by code_simp
  from history_bound [OF h] h e u show ?thesis by blast
qed

section \<open>Undoing every command\<close>

text \<open>
  Claim C1 fails on the code. A beatmap holds one note at 5 s. The note is moved to 1 s
  (\<open>MoveNoteCommand\<close>) and then deleted (\<open>RemoveNotesCommand\<close>, which keeps a copy); both commands
  are undone. The second undo re-inserts the copy, and the first then restores the time of the
  original object, which is no longer in the beatmap: the persistent form holds a note at 1 s,
  not at 5 s as before the two commands.
\<close>

theorem undo_after_move_then_delete:
  "History_execute (History_init MAX_HISTORY_SIZE)
       (MoveNoteCommand_init [\<lparr>time = 5, level = 1, type = ''base'', selected = True\<rparr>] 0 1 None)
       ([\<lparr>time = 5, level = 1, type = ''base'', selected = True\<rparr>],
        \<lparr>meta = BeatmapMeta_default, notes = [0], dirty = False\<rparr>)
     = Inr (\<lparr>undo_stack = [MoveNoteCommand 0 5 1 ''base'' ''base''], redo_stack = [], max_size = 100\<rparr>,
            [\<lparr>time = 1, level = 1, type = ''base'', selected = True\<rparr>],
            \<lparr>meta = BeatmapMeta_default, notes = [0], dirty = True\<rparr>)
   \<and> RemoveNotesCommand_init [\<lparr>time = 1, level = 1, type = ''base'', selected = True\<rparr>] [0]
     = Inr ([\<lparr>time = 1, level = 1, type = ''base'', selected = True\<rparr>,
             \<lparr>time = 1, level = 1, type = ''base'', selected = False\<rparr>],
            RemoveNotesCommand [1])
   \<and> History_execute
       \<lparr>undo_stack = [MoveNoteCommand 0 5 1 ''base'' ''base''], redo_stack = [], max_size = 100\<rparr>
       (RemoveNotesCommand [1])
       ([\<lparr>time = 1, level = 1, type = ''base'', selected = True\<rparr>,
         \<lparr>time = 1, level = 1, type = ''base'', selected = False\<rparr>],
        \<lparr>meta = BeatmapMeta_default, notes = [0], dirty = True\<rparr>)
     = Inr (\<lparr>undo_stack = [MoveNoteCommand 0 5 1 ''base'' ''base'', RemoveNotesCommand [1]],
              redo_stack = [], max_size = 100\<rparr>,
            [\<lparr>time = 1, level = 1, type = ''base'', selected = True\<rparr>,
             \<lparr>time = 1, level = 1, type = ''base'', selected = False\<rparr>],
            \<lparr>meta = BeatmapMeta_default, notes = [], dirty = True\<rparr>)
   \<and> undo_times 2
       \<lparr>undo_stack = [MoveNoteCommand 0 5 1 ''base'' ''base'', RemoveNotesCommand [1]],
          redo_stack = [], max_size = 100\<rparr>
       ([\<lparr>time = 1, level = 1, type = ''base'', selected = True\<rparr>,
         \<lparr>time = 1, level = 1, type = ''base'', selected = False\<rparr>],
        \<lparr>meta = BeatmapMeta_default, notes = [], dirty = True\<rparr>)
     = Inr ([Some ''Remove 1 notes'', Some ''Move note from 5.000s to 1.000s''],
            \<lparr>undo_stack = [],
              redo_stack = [RemoveNotesCommand [1], MoveNoteCommand 0 5 1 ''base'' ''base''],
              max_size = 100\<rparr>,
            [\<lparr>time = 5, level = 1, type = ''base'', selected = True\<rparr>,
             \<lparr>time = 1, level = 1, type = ''base'', selected = False\<rparr>],
            \<lparr>meta = BeatmapMeta_default, notes = [1], dirty = True\<rparr>)
   \<and> bd_notes (Beatmap_to_dict
         [\<lparr>time = 5, level = 1, type = ''base'', selected = True\<rparr>,
          \<lparr>time = 1, level = 1, type = ''base'', selected = False\<rparr>]
         \<lparr>meta = BeatmapMeta_default, notes = [1], dirty = True\<rparr>)
     = Some [\<lparr>nd_time = Some 1, nd_level = Some 1, nd_type = Some ''base''\<rparr>]
   \<and> bd_notes (Beatmap_to_dict
         [\<lparr>time = 5, level = 1, type = ''base'', selected = True\<rparr>]
         \<lparr>meta = BeatmapMeta_default, notes = [0], dirty = False\<rparr>)
     = Some [\<lparr>nd_time = Some 5, nd_level = Some 1, nd_type = Some ''base''\<rparr>]"
proof -
  have c1: "History_execute (History_init MAX_HISTORY_SIZE)
       (MoveNoteCommand_init [\<lparr>time = 5, level = 1, type = ''base'', selected = True\<rparr>] 0 1 None)
       ([\<lparr>time = 5, level = 1, type = ''base'', selected = True\<rparr>],
        \<lparr>meta = BeatmapMeta_default, notes = [0], dirty = False\<rparr>)
     = Inr (\<lparr>undo_stack = [MoveNoteCommand 0 5 1 ''base'' ''base''], redo_stack = [], max_size = 100\<rparr>,
            [\<lparr>time = 1, level = 1, type = ''base'', selected = True\<rparr>],
            \<lparr>meta = BeatmapMeta_default, notes = [0], dirty = True\<rparr>)"
    by (simp add: History_execute_def History_record_def History_init_def MAX_HISTORY_SIZE_def
        MoveNoteCommand_init_def resort_def set_time_type_def mark_dirty_def sort_by_time_def)
  have c2: "RemoveNotesCommand_init [\<lparr>time = 1, level = 1, type = ''base'', selected = True\<rparr>] [0]
     = Inr ([\<lparr>time = 1, level = 1, type = ''base'', selected = True\<rparr>,
             \<lparr>time = 1, level = 1, type = ''base'', selected = False\<rparr>],
            RemoveNotesCommand [1])"
    by (simp add: RemoveNotesCommand_init_def copy_def Note_init_def NOTE_TYPES_def LANES_def)
  have c3: "History_execute
       \<lparr>undo_stack = [MoveNoteCommand 0 5 1 ''base'' ''base''], redo_stack = [], max_size = 100\<rparr>
       (RemoveNotesCommand [1])
       ([\<lparr>time = 1, level = 1, type = ''base'', selected = True\<rparr>,
         \<lparr>time = 1, level = 1, type = ''base'', selected = False\<rparr>],
        \<lparr>meta = BeatmapMeta_default, notes = [0], dirty = True\<rparr>)
     = Inr (\<lparr>undo_stack = [MoveNoteCommand 0 5 1 ''base'' ''base'', RemoveNotesCommand [1]],
              redo_stack = [], max_size = 100\<rparr>,
            [\<lparr>time = 1, level = 1, type = ''base'', selected = True\<rparr>,
             \<lparr>time = 1, level = 1, type = ''base'', selected = False\<rparr>],
            \<lparr>meta = BeatmapMeta_default, notes = [], dirty = True\<rparr>)"
    by (simp add: History_execute_def History_record_def remove_notes_def list_contains_def note_eq_def)
  have c4: "undo_times 2
       \<lparr>undo_stack = [MoveNoteCommand 0 5 1 ''base'' ''base'', RemoveNotesCommand [1]],
          redo_stack = [], max_size = 100\<rparr>
       ([\<lparr>time = 1, level = 1, type = ''base'', selected = True\<rparr>,
         \<lparr>time = 1, level = 1, type = ''base'', selected = False\<rparr>],
        \<lparr>meta = BeatmapMeta_default, notes = [], dirty = True\<rparr>)
     = Inr ([Some ''Remove 1 notes'', Some ''Move note from 5.000s to 1.000s''],
            \<lparr>undo_stack = [],
              redo_stack = [RemoveNotesCommand [1], MoveNoteCommand 0 5 1 ''base'' ''base''],
              max_size = 100\<rparr>,
            [\<lparr>time = 5, level = 1, type = ''base'', selected = True\<rparr>,
             \<lparr>time = 1, level = 1, type = ''base'', selected = False\<rparr>],
            \<lparr>meta = BeatmapMeta_default, notes = [1], dirty = True\<rparr>)"
    by (simp add: numeral_2_eq_2 History_undo_def add_note_def sort_by_time_def resort_def
        set_time_type_def mark_dirty_def fmt_3f_def str_nat.simps digit_def round_half_even_def)
  have c5: "bd_notes (Beatmap_to_dict
         [\<lparr>time = 5, level = 1, type = ''base'', selected = True\<rparr>,
          \<lparr>time = 1, level = 1, type = ''base'', selected = False\<rparr>]
         \<lparr>meta = BeatmapMeta_default, notes = [1], dirty = True\<rparr>)
     = Some [\<lparr>nd_time = Some 1, nd_level = Some 1, nd_type = Some ''base''\<rparr>]"
    by (simp add: Beatmap_to_dict_def Note_to_dict_def py_round_def round_half_even_def)
  have c6: "bd_notes (Beatmap_to_dict
         [\<lparr>time = 5, level = 1, type = ''base'', selected = True\<rparr>]
         \<lparr>meta = BeatmapMeta_default, notes = [0], dirty = False\<rparr>)
     = Some [\<lparr>nd_time = Some 5, nd_level = Some 1, nd_type = Some ''base''\<rparr>]"
    by (simp add: Beatmap_to_dict_def Note_to_dict_def py_round_def round_half_even_def)
  from c1 c2 c3 c4 c5 c6 show ?thesis by (intro conjI)
qed

section \<open>The persistent form\<close>

lemma py_round_mono: "a \<le> b \<Longrightarrow> py_round a nd \<le> py_round b nd"
proof -
  assume "a \<le> b"
  then have "a * 10 ^ nd \<le> b * 10 ^ nd" by (simp add: mult_right_mono)
  then have "round_half_even (a * 10 ^ nd) \<le> round_half_even (b * 10 ^ nd)"
    by (rule round_half_even_mono)
  then show ?thesis by (simp add: py_round_def divide_right_mono)
qed

lemma Note_roundtrip: "valid_note n \<Longrightarrow> Note_from_dict (Note_to_dict n) = Inr (rounded n)"
  by (simp add: Note_from_dict_def Note_to_dict_def Note_init_def valid_note_def rounded_def)

lemma notes_roundtrip:
  "list_all valid_note ns \<Longrightarrow> notes_from_dicts (map Note_to_dict ns) = Inr (map rounded ns)"
  by (induction ns) (simp_all add: Note_roundtrip)

lemma nth_fresh_refs:
  "map (\<lambda>r. f ((h @ ns) ! r)) [length h ..< length h + length ns] = map f ns"
proof (rule nth_equalityI)
  show "length (map (\<lambda>r. f ((h @ ns) ! r)) [length h ..< length h + length ns]) = length (map f ns)"
    by simp
next
  fix i
  assume "i < length (map (\<lambda>r. f ((h @ ns) ! r)) [length h ..< length h + length ns])"
  then have i: "i < length ns" by simp
  then have "[length h ..< length h + length ns] ! i = length h + i" by simp
  with i show "map (\<lambda>r. f ((h @ ns) ! r)) [length h ..< length h + length ns] ! i = map f ns ! i"
    by simp
qed

lemma sorted_rounded:
  "sorted (map time ns) \<Longrightarrow> sorted (map (\<lambda>n. time (rounded n)) ns)"
proof (induction ns)
  case Nil
  then show ?case by simp
next
  case (Cons n ns)
  then show ?case by (auto simp: rounded_def py_round_mono)
qed

text \<open>
  Claim C5, as the code has it. For a beatmap whose notes are valid and sorted by time,
  duplicates included, loading the persistent form succeeds and gives the notes of the beatmap
  with each time rounded to three decimals, in the same order; when the times are multiples of
  one millisecond already, the notes are equal to the original ones under
  \<open>(time, level, type)\<close>.
\<close>

theorem persistent_form_roundtrip:
  assumes "list_all (\<lambda>r. valid_note (h ! r)) (notes bm)" and "world_sorted (h, bm)"
  shows "\<exists>h' bm'. Beatmap_from_dict h1 (Beatmap_to_dict h bm) = Inr (h', bm')
    \<and> map (\<lambda>r. (time (h' ! r), level (h' ! r), type (h' ! r))) (notes bm')
        = map (\<lambda>r. (py_round (time (h ! r)) 3, level (h ! r), type (h ! r))) (notes bm)
    \<and> (list_all (\<lambda>r. py_round (time (h ! r)) 3 = time (h ! r)) (notes bm) \<longrightarrow>
          map (\<lambda>r. (time (h' ! r), level (h' ! r), type (h' ! r))) (notes bm')
          = map (\<lambda>r. (time (h ! r), level (h ! r), type (h ! r))) (notes bm))"
proof -
  let ?vs = "map (\<lambda>r. h ! r) (notes bm)"
  let ?ns = "map rounded ?vs"
  let ?refs = "[length h1 ..< length h1 + length ?ns]"
  let ?h' = "h1 @ ?ns"
  let ?key = "\<lambda>n. (time n, level n, type n)"
  have v: "list_all valid_note ?vs" using assms(1) by (simp add: list_all_iff)
  have nd: "notes_from_dicts (map (\<lambda>r. Note_to_dict (h ! r)) (notes bm)) = Inr ?ns"
    using notes_roundtrip [OF v] by (simp add: o_def)
  have "sorted (map time ?vs)" using assms(2) by (simp add: world_sorted_def o_def)
  from sorted_rounded [OF this] have "sorted (map (\<lambda>n. time n) ?ns)" by (simp add: o_def)
  then have "sorted (map (\<lambda>r. time (?h' ! r)) ?refs)"
    by (simp only: nth_fresh_refs [of time h1 ?ns])
  then have srt: "sort_by_time ?h' ?refs = ?refs"
    unfolding sort_by_time_def by (rule sort_key_id_if_sorted)
  let ?bm' = "(Beatmap_init (Some (BeatmapMeta_from_dict (BeatmapMeta_to_dict (meta bm)))))\<lparr>notes := ?refs\<rparr>"
  have fd: "Beatmap_from_dict h1 (Beatmap_to_dict h bm) = Inr (?h', ?bm')"
    using nd srt by (simp add: Beatmap_from_dict_def Beatmap_to_dict_def dict_get_def Let_def)
  have "map (\<lambda>r. ?key (?h' ! r)) (notes ?bm') = map ?key ?ns"
    using nth_fresh_refs [of ?key h1 ?ns] by simp
  also have "\<dots> = map (\<lambda>r. (py_round (time (h ! r)) 3, level (h ! r), type (h ! r))) (notes bm)"
    by (simp add: rounded_def o_def)
  finally have k: "map (\<lambda>r. ?key (?h' ! r)) (notes ?bm')
      = map (\<lambda>r. (py_round (time (h ! r)) 3, level (h ! r), type (h ! r))) (notes bm)" .
  have "map (\<lambda>r. (py_round (time (h ! r)) 3, level (h ! r), type (h ! r))) (notes bm)
        = map (\<lambda>r. ?key (h ! r)) (notes bm)"
    if "list_all (\<lambda>r. py_round (time (h ! r)) 3 = time (h ! r)) (notes bm)"
    using that by (simp add: list_all_iff)
  with fd k show ?thesis by (intro exI [of _ ?h'] exI [of _ ?bm']) simp
qed

theorem persistent_form_roundtrip_witness:
  "list_all (\<lambda>r. valid_note ([\<lparr>time = 1, level = 2, type = ''base'', selected = False\<rparr>,
                                 \<lparr>time = 1, level = 1, type = ''base'', selected = False\<rparr>,
                                 \<lparr>time = 5 / 2, level = 3, type = ''lead'', selected = False\<rparr>] ! r))
      [0, 1, 2]
   \<and> world_sorted ([\<lparr>time = 1, level = 2, type = ''base'', selected = False\<rparr>,
                     \<lparr>time = 1, level = 1, type = ''base'', selected = False\<rparr>,
                     \<lparr>time = 5 / 2, level = 3, type = ''lead'', selected = False\<rparr>],
                    \<lparr>meta = BeatmapMeta_default, notes = [0, 1, 2], dirty = True\<rparr>)
   \<and> Beatmap_from_dict []
        (Beatmap_to_dict [\<lparr>time = 1, level = 2, type = ''base'', selected = False\<rparr>,
                          \<lparr>time = 1, level = 1, type = ''base'', selected = False\<rparr>,
                          \<lparr>time = 5 / 2, level = 3, type = ''lead'', selected = False\<rparr>]
           \<lparr>meta = BeatmapMeta_default, notes = [0, 1, 2], dirty = True\<rparr>)
      = Inr ([\<lparr>time = 1, level = 2, type = ''base'', selected = False\<rparr>,
              \<lparr>time = 1, level = 1, type = ''base'', selected = False\<rparr>,
              \<lparr>time = 5 / 2, level = 3, type = ''lead'', selected = False\<rparr>],
             \<lparr>meta = BeatmapMeta_default, notes = [0, 1, 2], dirty = False\<rparr>)
   \<and> (\<exists>h' bm'. Beatmap_from_dict []
        (Beatmap_to_dict [\<lparr>time = 1, level = 2, type = ''base'', selected = False\<rparr>,
                          \<lparr>time = 1, level = 1, type = ''base'', selected = False\<rparr>,
                          \<lparr>time = 5 / 2, level = 3, type = ''lead'', selected = False\<rparr>]
           \<lparr>meta = BeatmapMeta_default, notes = [0, 1, 2], dirty = True\<rparr>) = Inr (h', bm')
      \<and> map (\<lambda>r. (time (h' ! r), level (h' ! r), type (h' ! r))) (notes bm')
          = [(1, 2, ''base''), (1, 1, ''base''), (5 / 2, 3, ''lead'')])"
proof -
  let ?h = "[\<lparr>time = 1, level = 2, type = ''base'', selected = False\<rparr>,
             \<lparr>time = 1, level = 1, type = ''base'', selected = False\<rparr>,
             \<lparr>time = 5 / 2, level = 3, type = ''lead'', selected = False\<rparr>]"
  let ?bm = "\<lparr>meta = BeatmapMeta_default, notes = [0, 1, 2], dirty = True\<rparr>"
  have v: "list_all (\<lambda>r. valid_note (?h ! r)) (notes ?bm)"
    by (simp add: valid_note_def NOTE_TYPES_def LANES_def)
  have s: "world_sorted (?h, ?bm)" by (simp add: world_sorted_def)
  have r: "list_all (\<lambda>r. py_round (time (?h ! r)) 3 = time (?h ! r)) (notes ?bm)"
    by (simp add: py_round_def round_half_even_def Let_def)
  have e: "Beatmap_from_dict [] (Beatmap_to_dict ?h ?bm)
      = Inr (?h, \<lparr>meta = BeatmapMeta_default, notes = [0, 1, 2], dirty = False\<rparr>)"
    by (simp add: Beatmap_from_dict_def Beatmap_to_dict_def Note_to_dict_def Note_from_dict_def
      Note_init_def NOTE_TYPES_def LANES_def py_round_def round_half_even_def dict_get_def
      Beatmap_init_def BeatmapMeta_from_dict_def BeatmapMeta_to_dict_def BeatmapMeta_default_def
      BEATMAP_VERSION_def sort_by_time_def upt_rec Let_def)
  from persistent_form_roundtrip [OF v s, of "[]"] r
  have "\<exists>h' bm'. Beatmap_from_dict [] (Beatmap_to_dict ?h ?bm) = Inr (h', bm')
      \<and> map (\<lambda>r. (time (h' ! r), level (h' ! r), type (h' ! r))) (notes bm')
          = map (\<lambda>r. (time (?h ! r), level (?h ! r), type (?h ! r))) (notes ?bm)"
    by blast
  then have "\<exists>h' bm'. Beatmap_from_dict [] (Beatmap_to_dict ?h ?bm) = Inr (h', bm')
      \<and> map (\<lambda>r. (time (h' ! r), level (h' ! r), type (h' ! r))) (notes bm')
          = [(1, 2, ''base''), (1, 1, ''base''), (5 / 2, 3, ''lead'')]"
    by simp
  with v s e show ?thesis by simp
qed

text \<open>
  Claim C5 as stated fails for a time that is not a multiple of one millisecond: \<open>to_dict\<close>
  rounds 1.0004 to 1.0, and the note comes back at 1.0.
\<close>

theorem persistent_form_rounds_time_counterexample:
  "Beatmap_from_dict []
     (Beatmap_to_dict [\<lparr>time = 10004 / 10000, level = 2, type = ''drum'', selected = False\<rparr>]
        \<lparr>meta = BeatmapMeta_default, notes = [0], dirty = False\<rparr>)
   = Inr ([\<lparr>time = 1, level = 2, type = ''drum'', selected = False\<rparr>],
          \<lparr>meta = BeatmapMeta_default, notes = [0], dirty = False\<rparr>)
   \<and> (1 :: rat) \<noteq> 10004 / 10000"
proof -
  have "\<lfloor>(5002 :: rat) / 5\<rfloor> = 1000" by (rule floor_unique) simp_all
  then show ?thesis
    by (simp add: Beatmap_from_dict_def Beatmap_to_dict_def Note_to_dict_def Note_from_dict_def
      Note_init_def NOTE_TYPES_def LANES_def py_round_def round_half_even_def dict_get_def
      Beatmap_init_def BeatmapMeta_from_dict_def BeatmapMeta_to_dict_def BeatmapMeta_default_def
      BEATMAP_VERSION_def sort_by_time_def Let_def)
qed

section \<open>The clean-up of duplicates\<close>

lemma group_append_keys:
  "map fst (group_append k n gs) = (if k \<in> fst ` set gs then map fst gs else map fst gs @ [k])"
  by (induction gs) (auto simp: rev_image_eqI)

lemma group_append_set:
  "distinct (map fst gs) \<Longrightarrow>
   (k', g') \<in> set (group_append k n gs) \<longleftrightarrow>
     (k' \<noteq> k \<and> (k', g') \<in> set gs)
     \<or> (k' = k \<and> ((\<exists>g. (k, g) \<in> set gs \<and> g' = g @ [n]) \<or> (k \<notin> fst ` set gs \<and> g' = [n])))"
proof (induction gs)
  case Nil
  then show ?case by auto
next
  case (Cons a gs)
  obtain ka ga where a: "a = (ka, ga)" by (cases a)
  from Cons.prems have d: "distinct (map fst gs)" and ka: "ka \<notin> fst ` set gs" by (auto simp: a)
  show ?case
  proof (cases "ka = k")
    case True
    with ka show ?thesis by (auto simp: a rev_image_eqI)
  next
    case False
    with Cons.IH [OF d] show ?thesis by (auto simp: a)
  qed
qed

lemma time_groups_snoc:
  "time_groups h (xs @ [x]) = group_append (py_round (time (h ! x)) 3) x (time_groups h xs)"
  by (simp add: time_groups_def)

lemma time_groups_invariant:
  "distinct (map fst (time_groups h xs))
   \<and> fst ` set (time_groups h xs) = (\<lambda>n. py_round (time (h ! n)) 3) ` set xs
   \<and> (\<forall>(k, g) \<in> set (time_groups h xs).
         g \<noteq> [] \<and> g = filter (\<lambda>n. py_round (time (h ! n)) 3 = k) xs)"
proof (induction xs rule: rev_induct)
  case Nil
  show ?case by (simp add: time_groups_def)
next
  case (snoc x xs)
  let ?rt = "\<lambda>n. py_round (time (h ! n)) 3"
  let ?gs = "time_groups h xs"
  let ?gs' = "group_append (?rt x) x ?gs"
  from snoc have d: "distinct (map fst ?gs)"
    and ks: "fst ` set ?gs = ?rt ` set xs"
    and gr: "\<And>k g. (k, g) \<in> set ?gs \<Longrightarrow> g \<noteq> [] \<and> g = filter (\<lambda>n. ?rt n = k) xs"
    by auto
  have d': "distinct (map fst ?gs')" using d by (simp add: group_append_keys)
  have "set (map fst ?gs') = ?rt ` set (xs @ [x])"
    unfolding group_append_keys using ks by auto
  then have ks': "fst ` set ?gs' = ?rt ` set (xs @ [x])" by simp
  have gr': "g' \<noteq> [] \<and> g' = filter (\<lambda>n. ?rt n = k') (xs @ [x])" if m: "(k', g') \<in> set ?gs'" for k' g'
  proof -
    from m group_append_set [OF d, of k' g' "?rt x" x]
    consider (other) "k' \<noteq> ?rt x" "(k', g') \<in> set ?gs"
      | (old) g where "k' = ?rt x" "(?rt x, g) \<in> set ?gs" "g' = g @ [x]"
      | (new) "k' = ?rt x" "?rt x \<notin> fst ` set ?gs" "g' = [x]"
      by blast
    then show ?thesis
    proof cases
      case other
      with gr [OF other(2)] show ?thesis by auto
    next
      case old
      with gr [OF old(2)] show ?thesis by auto
    next
      case new
      from new(2) ks have "?rt x \<notin> ?rt ` set xs" by simp
      then have "\<forall>n \<in> set xs. ?rt n \<noteq> ?rt x" by (metis imageI)
      then have "filter (\<lambda>n. ?rt n = ?rt x) xs = []" by (simp add: filter_empty_conv)
      with new show ?thesis by simp
    qed
  qed
  show ?case
    unfolding time_groups_snoc using d' ks' gr' by blast
qed

lemma group_append_concat:
  "mset (concat (map snd (group_append k n gs))) = mset (concat (map snd gs)) + {#n#}"
  by (induction gs) auto

lemma time_groups_mset: "mset (concat (map snd (time_groups h xs))) = mset xs"
  by (induction xs rule: rev_induct) (simp_all add: time_groups_snoc group_append_concat, simp add: time_groups_def)

lemma duplicates_to_remove_tl:
  "duplicates_to_remove h ns =
     concat (map (\<lambda>(t, grp). tl (sort_key (\<lambda>n. level (h ! n)) grp)) (time_groups h ns))"
proof -
  have "(if length grp > 1 then tl (sort_key f grp) else []) = tl (sort_key f grp)"
    for grp :: "ref list" and f :: "ref \<Rightarrow> int"
  proof (cases grp)
    case Nil
    then show ?thesis by simp
  next
    case (Cons a as)
    then show ?thesis by (cases as) simp_all
  qed
  then show ?thesis by (simp add: duplicates_to_remove_def)
qed

lemma groups_split_mset:
  assumes "\<forall>(k, g) \<in> set gs. g \<noteq> []"
  shows "mset (concat (map snd gs))
       = mset (map (\<lambda>(t, grp). hd (sort_key f grp)) gs)
         + mset (concat (map (\<lambda>(t, grp). tl (sort_key f grp)) gs))"
  using assms
proof (induction gs)
  case Nil
  then show ?case by simp
next
  case (Cons a gs)
  obtain k g where a: "a = (k, g)" by (cases a)
  with Cons.prems have "g \<noteq> []" by simp
  then have "sort_key f g \<noteq> []" by (metis length_0_conv length_sort)
  then have "mset (sort_key f g) = {#hd (sort_key f g)#} + mset (tl (sort_key f g))"
    by (cases "sort_key f g") simp_all
  then have "mset g = {#hd (sort_key f g)#} + mset (tl (sort_key f g))" by simp
  moreover from Cons have "mset (concat (map snd gs))
       = mset (map (\<lambda>(t, grp). hd (sort_key f grp)) gs)
         + mset (concat (map (\<lambda>(t, grp). tl (sort_key f grp)) gs))" by simp
  ultimately show ?case by (simp add: a)
qed

lemma hd_sort_key_first_min:
  assumes "g \<noteq> []"
  shows "hd (sort_key f g) = hd (filter (\<lambda>x. f x = Min (set (map f g))) g)"
proof -
  let ?s = "sort_key f g"
  let ?m = "Min (set (map f g))"
  from assms have ne: "?s \<noteq> []" by (metis length_0_conv length_sort)
  then obtain a as where s: "?s = a # as" by (cases ?s) auto
  have srt: "sorted (map f ?s)" by simp
  have "a \<in> set g" using s by (metis list.set_intros(1) set_sort)
  then have "?m \<le> f a" by simp
  moreover have "f a \<le> ?m"
  proof -
    have "?m \<in> set (map f g)" using assms by (intro Min_in) simp_all
    then obtain x where x: "x \<in> set g" "f x = ?m" by auto
    then have "x \<in> set ?s" by simp
    with srt s have "f a \<le> f x" by auto
    with x show ?thesis by simp
  qed
  ultimately have "f a = ?m" by simp
  then have "hd (filter (\<lambda>x. f x = ?m) ?s) = a" by (simp add: s)
  moreover have "filter (\<lambda>x. f x = ?m) ?s = filter (\<lambda>x. f x = ?m) g" by (rule sort_key_stable)
  ultimately show ?thesis by (simp add: s)
qed

lemma note_eq_key: "note_eq a b \<longleftrightarrow> note_key a = note_key b"
  by (simp add: note_eq_def note_key_def)

lemma list_remove_mset:
  "mset (map (\<lambda>r. note_key (h ! r)) (list_remove h xs n))
   = mset (map (\<lambda>r. note_key (h ! r)) xs) - {#note_key (h ! n)#}"
proof (induction xs)
  case Nil
  then show ?case by simp
next
  case (Cons x xs)
  show ?case
  proof (cases "x = n \<or> note_eq (h ! x) (h ! n)")
    case True
    then have "note_key (h ! x) = note_key (h ! n)" by (auto simp: note_eq_key)
    with True show ?thesis by simp
  next
    case False
    then have "note_key (h ! x) \<noteq> note_key (h ! n)" by (simp add: note_eq_key)
    with False Cons show ?thesis by simp
  qed
qed

lemma list_remove_absent: "\<not> list_contains h xs n \<Longrightarrow> list_remove h xs n = xs"
  by (induction xs) (auto simp: list_contains_def)

lemma remove_loop_mset:
  "mset (map (\<lambda>r. note_key (h ! r))
      (notes (fold (\<lambda>note b. if list_contains h (notes b) note
                      then b\<lparr>notes := list_remove h (notes b) note\<rparr> else b) rs bm)))
   = mset (map (\<lambda>r. note_key (h ! r)) (notes bm)) - mset (map (\<lambda>r. note_key (h ! r)) rs)"
proof (induction rs arbitrary: bm)
  case Nil
  then show ?case by simp
next
  case (Cons n rs)
  let ?b = "if list_contains h (notes bm) n then bm\<lparr>notes := list_remove h (notes bm) n\<rparr> else bm"
  have "notes ?b = list_remove h (notes bm) n" by (simp add: list_remove_absent)
  then have "mset (map (\<lambda>r. note_key (h ! r)) (notes ?b))
      = mset (map (\<lambda>r. note_key (h ! r)) (notes bm)) - {#note_key (h ! n)#}"
    using list_remove_mset [of h "notes bm" n] by simp
  with Cons [of ?b] show ?case by simp
qed

lemma remove_notes_mset:
  "mset (map (\<lambda>r. note_key (h ! r)) (notes (remove_notes h bm rs)))
   = mset (map (\<lambda>r. note_key (h ! r)) (notes bm)) - mset (map (\<lambda>r. note_key (h ! r)) rs)"
  using remove_loop_mset [of h rs bm] by (simp add: remove_notes_def)

lemma set_remove_loop:
  "set (notes (fold (\<lambda>note b. if list_contains h (notes b) note
                      then b\<lparr>notes := list_remove h (notes b) note\<rparr> else b) rs bm))
   \<subseteq> set (notes bm)"
proof (induction rs arbitrary: bm)
  case Nil
  then show ?case by simp
next
  case (Cons n rs)
  let ?b = "if list_contains h (notes bm) n then bm\<lparr>notes := list_remove h (notes bm) n\<rparr> else bm"
  have "set (notes ?b) \<subseteq> set (notes bm)" using set_list_remove [of h "notes bm" n] by simp
  with Cons [of ?b] show ?case by simp
qed

lemma set_remove_notes: "set (notes (remove_notes h bm rs)) \<subseteq> set (notes bm)"
  by (simp add: remove_notes_def set_remove_loop)

lemma copies_valid:
  "list_all valid_note ns \<Longrightarrow>
   \<exists>cs. copies ns = Inr cs \<and> map note_key cs = map note_key ns"
proof (induction ns)
  case Nil
  then show ?case by simp
next
  case (Cons n ns)
  then obtain cs where "copies ns = Inr cs" "map note_key cs = map note_key ns" by auto
  moreover have "note_key \<lparr>time = time n, level = level n, type = type n, selected = False\<rparr>
      = note_key n"
    by (simp add: note_key_def)
  ultimately show ?case using Cons.prems by (simp add: copy_valid)
qed

lemma sorted_key_unique:
  assumes "mset xs = mset ys" and "sorted (map f xs)" and "sorted (map f ys)"
    and "distinct (map f ys)"
  shows "xs = ys"
proof -
  from assms(1) have m: "mset (map f xs) = mset (map f ys)" by simp
  then have d: "distinct (map f xs)" using assms(4) by (metis mset_eq_imp_distinct_iff)
  from m have "set (map f xs) = set (map f ys)" by (rule mset_eq_setD)
  with assms(2,3,4) d have keys: "map f xs = map f ys" by (intro sorted_distinct_set_unique)
  then have len: "length xs = length ys" by (rule map_eq_imp_length_eq)
  show ?thesis
  proof (rule nth_equalityI [OF len])
    fix i
    assume i: "i < length xs"
    then have "xs ! i \<in> set ys" using assms(1) by (metis mset_eq_setD nth_mem)
    then obtain j where j: "j < length ys" "ys ! j = xs ! i" by (auto simp: in_set_conv_nth)
    have "map f ys ! j = f (xs ! i)" using j by simp
    also have "\<dots> = map f xs ! i" using i by simp
    also have "\<dots> = map f ys ! i" by (simp add: keys)
    finally have "map f ys ! j = map f ys ! i" .
    moreover have "j < length (map f ys)" "i < length (map f ys)" using i j(1) len by simp_all
    ultimately have "j = i" using assms(4) by (simp only: nth_eq_iff_index_eq)
    with j show "xs ! i = ys ! i" by simp
  qed
qed

lemma first_lowest_member:
  assumes "g \<noteq> []"
  shows "first_lowest g \<in> set g"
proof -
  have "Min (set (map level g)) \<in> set (map level g)" using assms by (intro Min_in) simp_all
  then have "filter (\<lambda>n. level n = Min (set (map level g))) g \<noteq> []"
    by (auto simp: filter_empty_conv)
  then have "first_lowest g \<in> set (filter (\<lambda>n. level n = Min (set (map level g))) g)"
    unfolding first_lowest_def by (rule hd_in_set)
  then show ?thesis by simp
qed

lemma py_round_strict: "py_round a nd < py_round b nd \<Longrightarrow> a < b"
  using py_round_mono [of b a nd] by (cases "a < b") auto

lemma lowest_per_group_sorted:
  "sorted_wrt (<) (map time (lowest_per_group vs))"
proof -
  let ?rt = "\<lambda>n. py_round (time n) 3"
  let ?S = "set (map ?rt vs)"
  let ?F = "\<lambda>k. first_lowest (filter (\<lambda>n. ?rt n = k) vs)"
  have key: "?rt (?F k) = k" if "k \<in> ?S" for k
  proof -
    from that have "filter (\<lambda>n. ?rt n = k) vs \<noteq> []" by (auto simp: filter_empty_conv)
    from first_lowest_member [OF this] show ?thesis by simp
  qed
  have "sorted_wrt (<) (sorted_list_of_set ?S)"
    by (simp add: strict_sorted_iff)
  then have "sorted_wrt (\<lambda>k k'. time (?F k) < time (?F k')) (sorted_list_of_set ?S)"
  proof (rule sorted_wrt_mono_rel [rotated])
    fix k k'
    assume "k \<in> set (sorted_list_of_set ?S)" "k' \<in> set (sorted_list_of_set ?S)" "k < k'"
    then have "?rt (?F k) < ?rt (?F k')" using key by simp
    then show "time (?F k) < time (?F k')" by (rule py_round_strict)
  qed
  then show ?thesis by (simp add: lowest_per_group_def sorted_wrt_map o_def)
qed

lemma hd_sort_first_lowest:
  assumes "g \<noteq> []"
  shows "h ! hd (sort_key (\<lambda>n. level (h ! n)) g) = first_lowest (map ((!) h) g)"
proof -
  let ?m = "Min (set (map (\<lambda>n. level (h ! n)) g))"
  have m: "Min (set (map level (map ((!) h) g))) = ?m" by (simp add: o_def)
  have "?m \<in> set (map (\<lambda>n. level (h ! n)) g)" using assms by (intro Min_in) simp_all
  then have ne: "filter (\<lambda>n. level (h ! n) = ?m) g \<noteq> []" by (auto simp: filter_empty_conv)
  have "first_lowest (map ((!) h) g) = hd (map ((!) h) (filter (\<lambda>n. level (h ! n) = ?m) g))"
    unfolding first_lowest_def m by (simp add: filter_map o_def)
  also have "\<dots> = h ! hd (filter (\<lambda>n. level (h ! n) = ?m) g)" using ne by (simp add: hd_map)
  also have "\<dots> = h ! hd (sort_key (\<lambda>n. level (h ! n)) g)"
    using hd_sort_key_first_min [OF assms, of "\<lambda>n. level (h ! n)"] by simp
  finally show ?thesis by simp
qed

lemma kept_of_groups:
  "map ((!) h) (map (\<lambda>(t, grp). hd (sort_key (\<lambda>n. level (h ! n)) grp)) (time_groups h ns))
   = map (\<lambda>k. first_lowest (filter (\<lambda>n. py_round (time n) 3 = k) (map ((!) h) ns)))
       (map fst (time_groups h ns))"
proof -
  have "h ! hd (sort_key (\<lambda>n. level (h ! n)) g)
      = first_lowest (filter (\<lambda>n. py_round (time n) 3 = k) (map ((!) h) ns))"
    if "(k, g) \<in> set (time_groups h ns)" for k g
  proof -
    from that time_groups_invariant [of h ns]
    have g: "g \<noteq> []" "g = filter (\<lambda>n. py_round (time (h ! n)) 3 = k) ns" by auto
    have "map ((!) h) g = filter (\<lambda>n. py_round (time n) 3 = k) (map ((!) h) ns)"
      by (subst g(2)) (simp add: filter_map o_def)
    with hd_sort_first_lowest [OF g(1), of h] show ?thesis by simp
  qed
  then show ?thesis by auto
qed

lemma lowest_per_group_mset:
  "mset (map note_key (lowest_per_group (map ((!) h) ns)))
   = mset (map (\<lambda>r. note_key (h ! r)) ns)
     - mset (map (\<lambda>r. note_key (h ! r)) (duplicates_to_remove h ns))"
proof -
  let ?gs = "time_groups h ns"
  let ?lvl = "\<lambda>n. level (h ! n)"
  let ?H = "map (\<lambda>(t, grp). hd (sort_key ?lvl grp)) ?gs"
  let ?rm = "duplicates_to_remove h ns"
  let ?vs = "map ((!) h) ns"
  let ?F = "\<lambda>k. first_lowest (filter (\<lambda>n. py_round (time n) 3 = k) ?vs)"
  let ?S = "set (map (\<lambda>n. py_round (time n) 3) ?vs)"
  from time_groups_invariant [of h ns]
  have d: "distinct (map fst ?gs)"
    and ks: "fst ` set ?gs = (\<lambda>n. py_round (time (h ! n)) 3) ` set ns"
    and ne: "\<forall>(k, g) \<in> set ?gs. g \<noteq> []"
    by auto
  from groups_split_mset [OF ne, of ?lvl] have "mset ns = mset ?H + mset ?rm"
    by (simp only: time_groups_mset duplicates_to_remove_tl)
  then have "mset (map (\<lambda>r. note_key (h ! r)) ns)
      = mset (map (\<lambda>r. note_key (h ! r)) ?H) + mset (map (\<lambda>r. note_key (h ! r)) ?rm)"
    by (metis mset_append map_append mset_map)
  then have a: "mset (map (\<lambda>r. note_key (h ! r)) ns) - mset (map (\<lambda>r. note_key (h ! r)) ?rm)
      = mset (map (\<lambda>r. note_key (h ! r)) ?H)"
    by simp
  have "set (map fst ?gs) = ?S" using ks by (simp add: image_image)
  moreover have "distinct (sorted_list_of_set ?S)" "set (sorted_list_of_set ?S) = ?S" by simp_all
  ultimately have "mset (map fst ?gs) = mset (sorted_list_of_set ?S)"
    using d by (metis set_eq_iff_mset_eq_distinct)
  then have "mset (map ?F (map fst ?gs)) = mset (map ?F (sorted_list_of_set ?S))"
    by (metis mset_map)
  then have "mset (lowest_per_group ?vs) = mset (map ((!) h) ?H)"
    by (simp only: lowest_per_group_def kept_of_groups)
  then have "mset (map note_key (lowest_per_group ?vs)) = mset (map note_key (map ((!) h) ?H))"
    by (metis mset_map)
  also have "\<dots> = mset (map (\<lambda>r. note_key (h ! r)) ?H)" by (simp add: o_def)
  finally show ?thesis using a by simp
qed

lemma duplicates_subset: "set (duplicates_to_remove h ns) \<subseteq> set ns"
proof -
  from time_groups_invariant [of h ns]
  have ne: "\<forall>(k, g) \<in> set (time_groups h ns). g \<noteq> []" by auto
  from groups_split_mset [OF ne, of "\<lambda>n. level (h ! n)"]
  have "mset (duplicates_to_remove h ns) \<subseteq># mset ns"
    by (simp only: time_groups_mset duplicates_to_remove_tl) simp
  from set_mset_mono [OF this] show ?thesis by simp
qed

lemma cleaned_unique:
  assumes "mset (map (\<lambda>r. note_key (h' ! r)) rs) = mset (map note_key (lowest_per_group vs))"
    and "sorted (map (\<lambda>r. time (h' ! r)) rs)"
  shows "map (\<lambda>r. note_key (h' ! r)) rs = map note_key (lowest_per_group vs)"
proof (rule sorted_key_unique [where f = fst, OF assms(1)])
  show "sorted (map fst (map (\<lambda>r. note_key (h' ! r)) rs))"
    using assms(2) by (simp add: o_def note_key_def)
  have "sorted_wrt (<) (map fst (map note_key (lowest_per_group vs)))"
    using lowest_per_group_sorted [of vs] by (simp add: o_def note_key_def)
  then show "sorted (map fst (map note_key (lowest_per_group vs)))"
    and "distinct (map fst (map note_key (lowest_per_group vs)))"
    by (simp_all only: strict_sorted_iff)
qed

lemma nth_append_old:
  "list_all (\<lambda>r. r < length h) ns \<Longrightarrow> map (\<lambda>r. f ((h @ cs) ! r)) ns = map (\<lambda>r. f (h ! r)) ns"
  by (simp add: list_all_iff nth_append)

text \<open>
  Claim C7. On a beatmap whose notes are sorted and valid, the clean-up leaves, of the notes of
  each group sharing a rounded time, the one of lowest level, the first if levels tie, and
  removes the others; the notes are compared under \<open>(time, level, type)\<close>, as
  \<open>Beatmap.remove_notes\<close> compares them. In the example of the claim, a level 2 and a level 1
  note at 1.000 s, the level 2 note is removed: the instance that follows the theorem.
\<close>

theorem cleanup_duplicates_keeps_lowest:
  assumes "world_sorted (h, bm)"
    and "list_all (\<lambda>r. r < length h) (notes bm)"
    and "list_all (\<lambda>r. valid_note (h ! r)) (notes bm)"
    and "0 \<le> max_size hist"
  shows "\<exists>hist' h' bm'. on_cleanup_duplicates hist (h, bm) = Inr (hist', (h', bm'))
    \<and> map (\<lambda>r. note_key (h' ! r)) (notes bm')
        = map note_key (lowest_per_group (map ((!) h) (notes bm)))"
proof -
  let ?ns = "notes bm"
  let ?rm = "duplicates_to_remove h ?ns"
  let ?C = "lowest_per_group (map ((!) h) ?ns)"
  have srt: "sorted (map (\<lambda>r. time (h ! r)) ?ns)" using assms(1) by (simp add: world_sorted_def)
  note m = lowest_per_group_mset [of h ?ns]
  show ?thesis
  proof (cases "?ns = [] \<or> ?rm = []")
    case True
    then have rm: "?rm = []" by (auto simp: duplicates_to_remove_def time_groups_def)
    from True have "on_cleanup_duplicates hist (h, bm) = Inr (hist, (h, bm))"
      by (auto simp: on_cleanup_duplicates_def Let_def)
    moreover have "mset (map (\<lambda>r. note_key (h ! r)) ?ns) = mset (map note_key ?C)"
      using m by (simp only: rm) simp
    then have "map (\<lambda>r. note_key (h ! r)) ?ns = map note_key ?C"
      using srt by (rule cleaned_unique)
    ultimately show ?thesis by blast
  next
    case False
    have "list_all valid_note (map ((!) h) ?rm)"
      using assms(3) duplicates_subset [of h ?ns] by (auto simp: list_all_iff)
    from copies_valid [OF this] obtain cs
      where cs: "copies (map ((!) h) ?rm) = Inr cs" "map note_key cs = map note_key (map ((!) h) ?rm)"
      by blast
    let ?h' = "h @ cs"
    let ?refs = "[length h ..< length h + length cs]"
    let ?bm' = "remove_notes ?h' bm ?refs"
    let ?hist' = "hist\<lparr>undo_stack := drop (Suc (length (undo_stack hist)) - nat (max_size hist))
                                      (undo_stack hist @ [CleanupDuplicatesCommand ?refs]),
                     redo_stack := []\<rparr>"
    have init: "CleanupDuplicatesCommand_init h ?rm = Inr (?h', CleanupDuplicatesCommand ?refs)"
      using cs(1) by (simp add: CleanupDuplicatesCommand_init_def)
    have "History_execute hist (CleanupDuplicatesCommand ?refs) (?h', bm) = Inr (?hist', (?h', ?bm'))"
      by (simp add: History_execute_def History_record_def trim_stack_nonneg [OF assms(4)])
    with False init have run: "on_cleanup_duplicates hist (h, bm) = Inr (?hist', (?h', ?bm'))"
      by (simp add: on_cleanup_duplicates_def Let_def)
    have old_keys: "map (\<lambda>r. note_key (?h' ! r)) ?ns = map (\<lambda>r. note_key (h ! r)) ?ns"
      by (rule nth_append_old [OF assms(2)])
    have new_keys: "map (\<lambda>r. note_key (?h' ! r)) ?refs = map (\<lambda>r. note_key (h ! r)) ?rm"
      using nth_fresh_refs [of note_key h cs] cs(2) by (simp add: o_def)
    have "mset (map (\<lambda>r. note_key (?h' ! r)) (notes ?bm'))
        = mset (map (\<lambda>r. note_key (?h' ! r)) ?ns) - mset (map (\<lambda>r. note_key (?h' ! r)) ?refs)"
      by (rule remove_notes_mset)
    then have ms: "mset (map (\<lambda>r. note_key (?h' ! r)) (notes ?bm')) = mset (map note_key ?C)"
      by (simp only: old_keys new_keys m)
    have "map (\<lambda>r. time (?h' ! r)) ?ns = map (\<lambda>r. time (h ! r)) ?ns"
      by (rule nth_append_old [OF assms(2)])
    then have "sorted (map (\<lambda>r. time (?h' ! r)) ?ns)" using srt by (simp only:)
    then have "world_sorted (?h', bm)" by (simp add: world_sorted_def)
    then have "world_sorted (?h', ?bm')" by (rule sorted_remove_notes)
    then have "sorted (map (\<lambda>r. time (?h' ! r)) (notes ?bm'))" by (simp add: world_sorted_def)
    from cleaned_unique [OF ms this] run show ?thesis by blast
  qed
qed

theorem cleanup_duplicates_keeps_lowest_witness:
  "world_sorted ([\<lparr>time = 1, level = 2, type = ''base'', selected = False\<rparr>,
                  \<lparr>time = 1, level = 1, type = ''base'', selected = False\<rparr>],
                 \<lparr>meta = BeatmapMeta_default, notes = [0, 1], dirty = False\<rparr>)
   \<and> on_cleanup_duplicates (History_init 100)
         ([\<lparr>time = 1, level = 2, type = ''base'', selected = False\<rparr>,
           \<lparr>time = 1, level = 1, type = ''base'', selected = False\<rparr>],
          \<lparr>meta = BeatmapMeta_default, notes = [0, 1], dirty = False\<rparr>)
       = Inr (\<lparr>undo_stack = [CleanupDuplicatesCommand [2]], redo_stack = [], max_size = 100\<rparr>,
              [\<lparr>time = 1, level = 2, type = ''base'', selected = False\<rparr>,
               \<lparr>time = 1, level = 1, type = ''base'', selected = False\<rparr>,
               \<lparr>time = 1, level = 2, type = ''base'', selected = False\<rparr>],
              \<lparr>meta = BeatmapMeta_default, notes = [1], dirty = True\<rparr>)
   \<and> lowest_per_group [\<lparr>time = 1, level = 2, type = ''base'', selected = False\<rparr>,
                         \<lparr>time = 1, level = 1, type = ''base'', selected = False\<rparr>]
       = [\<lparr>time = 1, level = 1, type = ''base'', selected = False\<rparr>]
   \<and> (\<exists>hist' h' bm'.
         on_cleanup_duplicates (History_init 100)
           ([\<lparr>time = 1, level = 2, type = ''base'', selected = False\<rparr>,
             \<lparr>time = 1, level = 1, type = ''base'', selected = False\<rparr>],
            \<lparr>meta = BeatmapMeta_default, notes = [0, 1], dirty = False\<rparr>)
           = Inr (hist', (h', bm'))
         \<and> map (\<lambda>r. note_key (h' ! r)) (notes bm') = [(1, 1, ''base'')])"
proof -
  let ?h = "[\<lparr>time = 1, level = 2, type = ''base'', selected = False\<rparr>,
             \<lparr>time = 1, level = 1, type = ''base'', selected = False\<rparr>]"
  let ?bm = "\<lparr>meta = BeatmapMeta_default, notes = [0, 1], dirty = False\<rparr>"
  have s: "world_sorted (?h, ?bm)" by (simp add: world_sorted_def)
  have r: "list_all (\<lambda>r. r < length ?h) (notes ?bm)" by simp
  have v: "list_all (\<lambda>r. valid_note (?h ! r)) (notes ?bm)"
    by (simp add: valid_note_def NOTE_TYPES_def LANES_def)
  have b: "0 \<le> max_size (History_init 100)" by (simp add: History_init_def)
  have rt: "py_round 1 3 = 1" by (simp add: py_round_def round_half_even_def)
  have tg: "time_groups ?h [0, 1] = [(1, [0, 1])]" by (simp add: time_groups_def rt)
  have rm: "duplicates_to_remove ?h [0, 1] = [0]" using tg by (simp add: duplicates_to_remove_def)
  have e: "on_cleanup_duplicates (History_init 100) (?h, ?bm)
       = Inr (\<lparr>undo_stack = [CleanupDuplicatesCommand [2]], redo_stack = [], max_size = 100\<rparr>,
              ?h @ [\<lparr>time = 1, level = 2, type = ''base'', selected = False\<rparr>],
              \<lparr>meta = BeatmapMeta_default, notes = [1], dirty = True\<rparr>)"
    using rm by (simp add: on_cleanup_duplicates_def CleanupDuplicatesCommand_init_def copy_def
        Note_init_def NOTE_TYPES_def LANES_def History_execute_def History_record_def
        History_init_def remove_notes_def list_contains_def note_eq_def)
  have l: "lowest_per_group ?h = [\<lparr>time = 1, level = 1, type = ''base'', selected = False\<rparr>]"
    by (simp add: lowest_per_group_def first_lowest_def rt)
  from cleanup_duplicates_keeps_lowest [OF s r v b]
  have "\<exists>hist' h' bm'. on_cleanup_duplicates (History_init 100) (?h, ?bm) = Inr (hist', (h', bm'))
      \<and> map (\<lambda>r. note_key (h' ! r)) (notes bm') = map note_key (lowest_per_group (map ((!) ?h) (notes ?bm)))"
    by blast
  moreover have "map ((!) ?h) (notes ?bm) = ?h" by simp
  ultimately have "\<exists>hist' h' bm'. on_cleanup_duplicates (History_init 100) (?h, ?bm) = Inr (hist', (h', bm'))
      \<and> map (\<lambda>r. note_key (h' ! r)) (notes bm') = [(1, 1, ''base'')]"
    by (simp only: l) (simp add: note_key_def)
  with s e l show ?thesis by simp
qed

section \<open>Apply to all without a grid step\<close>

lemma open_editor_grid_step:
  assumes "length grid_times \<le> 1" and "open_editor ed0 h sel grid_times = Inr (True, ed)"
  shows "grid_step ed = 0"
  using assms
  by (auto simp: open_editor_def Let_def split: if_splits sum.splits)

lemma update_live_preview_grid_step:
  "update_live_preview ed w = Inr (ed', w') \<Longrightarrow> grid_step ed' = grid_step ed"
  by (auto simp: update_live_preview_def split: prod.splits sum.splits)

lemma apply_edit_grid_step:
  "apply_edit e (ed, w) = Inr (ed', w') \<Longrightarrow> grid_step ed' = grid_step ed"
proof (cases e)
  case (Toggle index)
  assume "apply_edit e (ed, w) = Inr (ed', w')"
  with Toggle show ?thesis
    by (auto simp: toggle_slot_def split: option.splits if_splits
        dest!: update_live_preview_grid_step)
next
  case AllOn
  assume "apply_edit e (ed, w) = Inr (ed', w')"
  with AllOn show ?thesis by (auto simp: set_all_on_def dest!: update_live_preview_grid_step)
next
  case AllOff
  assume "apply_edit e (ed, w) = Inr (ed', w')"
  with AllOff show ?thesis by (auto simp: set_all_off_def dest!: update_live_preview_grid_step)
next
  case Invert
  assume "apply_edit e (ed, w) = Inr (ed', w')"
  with Invert show ?thesis by (auto simp: invert_pattern_def dest!: update_live_preview_grid_step)
next
  case Reset
  assume "apply_edit e (ed, w) = Inr (ed', w')"
  with Reset show ?thesis by (auto simp: reset_pattern_def dest!: update_live_preview_grid_step)
qed

lemma apply_edits_grid_step:
  "apply_edits es (ed, w) = Inr (ed', w') \<Longrightarrow> grid_step ed' = grid_step ed"
proof (induction es arbitrary: ed w)
  case Nil
  then show ?case by simp
next
  case (Cons e es)
  then obtain ed1 w1 where s: "apply_edit e (ed, w) = Inr (ed1, w1)"
    and r: "apply_edits es (ed1, w1) = Inr (ed', w')"
    by (auto split: sum.splits)
  from Cons.IH [OF r] apply_edit_grid_step [OF s] show ?case by simp
qed

lemma on_apply_to_all_fallback:
  "pattern_slots ed = [] \<or> grid_step ed \<le> 0 \<Longrightarrow> on_apply_to_all ed w = on_apply ed w"
  by (cases w) (auto simp: on_apply_to_all_def)

lemma on_apply_outcome:
  "on_apply ed w = Inr (ed', w', cb) \<Longrightarrow>
   w' = w \<and> ed' = close_editor ed \<and> (\<forall>a r c. cb \<noteq> Some (OnApplyToAll a r c))"
  by (auto simp: on_apply_def split: sum.splits if_splits)

text \<open>
  Claim C9. When the modal was opened on at most one grid time, so that there is one slot and
  no grid step, then after any edits apply-to-all does what apply does: it reports the changes
  of the selection through \<open>on_apply\<close>, with no match count, and leaves the beatmap as the
  preview left it. The same holds for an editor without slots.
\<close>

theorem apply_to_all_falls_back:
  assumes "length grid_times \<le> 1"
    and "open_editor ed0 h sel grid_times = Inr (True, ed)"
    and "apply_edits es (ed, w) = Inr (ed', w')"
  shows "on_apply_to_all ed' w' = on_apply ed' w'
    \<and> (\<forall>ed'' w'' cb. on_apply_to_all ed' w' = Inr (ed'', w'', cb) \<longrightarrow>
          w'' = w' \<and> (\<forall>a r c. cb \<noteq> Some (OnApplyToAll a r c)))
    \<and> (pattern_slots ed1 = [] \<longrightarrow> on_apply_to_all ed1 w1 = on_apply ed1 w1)"
proof -
  from open_editor_grid_step [OF assms(1,2)] apply_edits_grid_step [OF assms(3)]
  have "grid_step ed' \<le> 0" by simp
  then have f: "on_apply_to_all ed' w' = on_apply ed' w'"
    by (simp add: on_apply_to_all_fallback)
  moreover have "w'' = w' \<and> (\<forall>a r c. cb \<noteq> Some (OnApplyToAll a r c))"
    if "on_apply_to_all ed' w' = Inr (ed'', w'', cb)" for ed'' w'' cb
    using that on_apply_outcome [of ed' w' ed'' w'' cb] by (simp add: f)
  moreover have "pattern_slots ed1 = [] \<longrightarrow> on_apply_to_all ed1 w1 = on_apply ed1 w1"
    by (simp add: on_apply_to_all_fallback)
  ultimately show ?thesis by blast
qed

theorem apply_to_all_falls_back_witness:
  "length [0 :: rat] \<le> 1
   \<and> open_editor (PatternEditor_init True True)
         [\<lparr>time = 0, level = 1, type = ''drum'', selected = True\<rparr>,
          \<lparr>time = 2, level = 1, type = ''drum'', selected = False\<rparr>]
         [0] [0]
       = Inr (True,
           \<lparr>pattern_slots = [\<lparr>slot_time = 0, has_marker = True, original_marker = True,
                                slot_note = Some 0\<rparr>],
              selected_notes = [0], lane_type = Some ''drum'', editor_level = 1,
              original_notes = [\<lparr>time = 0, level = 1, type = ''drum'', selected = False\<rparr>],
              original_pattern = ''o'', grid_step = 0, modal_open = True,
              on_apply_set = True, on_apply_to_all_set = True\<rparr>)
   \<and> apply_edits [Toggle (Some 0)]
         (\<lparr>pattern_slots = [\<lparr>slot_time = 0, has_marker = True, original_marker = True,
                                slot_note = Some 0\<rparr>],
              selected_notes = [0], lane_type = Some ''drum'', editor_level = 1,
              original_notes = [\<lparr>time = 0, level = 1, type = ''drum'', selected = False\<rparr>],
              original_pattern = ''o'', grid_step = 0, modal_open = True,
              on_apply_set = True, on_apply_to_all_set = True\<rparr>,
          [\<lparr>time = 0, level = 1, type = ''drum'', selected = True\<rparr>,
           \<lparr>time = 2, level = 1, type = ''drum'', selected = False\<rparr>],
          \<lparr>meta = BeatmapMeta_default\<lparr>total_duration := 4\<rparr>, notes = [0, 1], dirty = False\<rparr>)
       = Inr (\<lparr>pattern_slots = [\<lparr>slot_time = 0, has_marker = False, original_marker = True,
                                    slot_note = None\<rparr>],
                selected_notes = [0], lane_type = Some ''drum'', editor_level = 1,
                original_notes = [\<lparr>time = 0, level = 1, type = ''drum'', selected = False\<rparr>],
                original_pattern = ''o'', grid_step = 0, modal_open = True,
                on_apply_set = True, on_apply_to_all_set = True\<rparr>,
              [\<lparr>time = 0, level = 1, type = ''drum'', selected = True\<rparr>,
               \<lparr>time = 2, level = 1, type = ''drum'', selected = False\<rparr>],
              \<lparr>meta = BeatmapMeta_default\<lparr>total_duration := 4\<rparr>, notes = [1], dirty = False\<rparr>)
   \<and> on_apply_to_all
         \<lparr>pattern_slots = [\<lparr>slot_time = 0, has_marker = False, original_marker = True,
                              slot_note = None\<rparr>],
            selected_notes = [0], lane_type = Some ''drum'', editor_level = 1,
            original_notes = [\<lparr>time = 0, level = 1, type = ''drum'', selected = False\<rparr>],
            original_pattern = ''o'', grid_step = 0, modal_open = True,
            on_apply_set = True, on_apply_to_all_set = True\<rparr>
         ([\<lparr>time = 0, level = 1, type = ''drum'', selected = True\<rparr>,
           \<lparr>time = 2, level = 1, type = ''drum'', selected = False\<rparr>],
          \<lparr>meta = BeatmapMeta_default\<lparr>total_duration := 4\<rparr>, notes = [1], dirty = False\<rparr>)
       = Inr (\<lparr>pattern_slots = [], selected_notes = [], lane_type = Some ''drum'', editor_level = 1,
                original_notes = [], original_pattern = ''o'', grid_step = 0, modal_open = False,
                on_apply_set = True, on_apply_to_all_set = True\<rparr>,
              ([\<lparr>time = 0, level = 1, type = ''drum'', selected = True\<rparr>,
                \<lparr>time = 2, level = 1, type = ''drum'', selected = False\<rparr>],
               \<lparr>meta = BeatmapMeta_default\<lparr>total_duration := 4\<rparr>, notes = [1], dirty = False\<rparr>),
              Some (OnApply [] [\<lparr>time = 0, level = 1, type = ''drum'', selected = False\<rparr>]))"
proof -
  let ?h = "[\<lparr>time = 0, level = 1, type = ''drum'', selected = True\<rparr>,
             \<lparr>time = 2, level = 1, type = ''drum'', selected = False\<rparr>]"
  let ?ed = "\<lparr>pattern_slots = [\<lparr>slot_time = 0, has_marker = True, original_marker = True,
                                slot_note = Some 0\<rparr>],
              selected_notes = [0], lane_type = Some ''drum'', editor_level = 1,
              original_notes = [\<lparr>time = 0, level = 1, type = ''drum'', selected = False\<rparr>],
              original_pattern = ''o'', grid_step = 0, modal_open = True,
              on_apply_set = True, on_apply_to_all_set = True\<rparr>"
  let ?ed' = "\<lparr>pattern_slots = [\<lparr>slot_time = 0, has_marker = False, original_marker = True,
                                slot_note = None\<rparr>],
              selected_notes = [0], lane_type = Some ''drum'', editor_level = 1,
              original_notes = [\<lparr>time = 0, level = 1, type = ''drum'', selected = False\<rparr>],
              original_pattern = ''o'', grid_step = 0, modal_open = True,
              on_apply_set = True, on_apply_to_all_set = True\<rparr>"
  let ?bm = "\<lparr>meta = BeatmapMeta_default\<lparr>total_duration := 4\<rparr>, notes = [0, 1], dirty = False\<rparr>"
  let ?bm' = "\<lparr>meta = BeatmapMeta_default\<lparr>total_duration := 4\<rparr>, notes = [1], dirty = False\<rparr>"
  have rt: "py_round 0 3 = 0" by (simp add: py_round_def round_half_even_def)
  have g: "length [0 :: rat] \<le> 1" by simp
  have o: "open_editor (PatternEditor_init True True) ?h [0] [0] = Inr (True, ?ed)"
    by (simp add: open_editor_def PatternEditor_init_def copy_def Note_init_def NOTE_TYPES_def
        LANES_def make_slot_def rt get_original_pattern_string_def)
  have e: "apply_edits [Toggle (Some 0)] (?ed, (?h, ?bm)) = Inr (?ed', (?h, ?bm'))"
    by (simp add: toggle_slot_def update_live_preview_def list_contains_def note_eq_def)
  have a: "on_apply ?ed' (?h, ?bm')
      = Inr (close_editor ?ed', (?h, ?bm'),
             Some (OnApply [] [\<lparr>time = 0, level = 1, type = ''drum'', selected = False\<rparr>]))"
    by (simp add: on_apply_def rt copy_def Note_init_def NOTE_TYPES_def LANES_def)
  from apply_to_all_falls_back [OF g o e]
  have "on_apply_to_all ?ed' (?h, ?bm') = on_apply ?ed' (?h, ?bm')" by blast
  with a have "on_apply_to_all ?ed' (?h, ?bm')
      = Inr (close_editor ?ed', (?h, ?bm'),
             Some (OnApply [] [\<lparr>time = 0, level = 1, type = ''drum'', selected = False\<rparr>]))"
    by simp
  then have "on_apply_to_all ?ed' (?h, ?bm')
      = Inr (\<lparr>pattern_slots = [], selected_notes = [], lane_type = Some ''drum'', editor_level = 1,
                original_notes = [], original_pattern = ''o'', grid_step = 0, modal_open = False,
                on_apply_set = True, on_apply_to_all_set = True\<rparr>, (?h, ?bm'),
             Some (OnApply [] [\<lparr>time = 0, level = 1, type = ''drum'', selected = False\<rparr>]))"
    by (simp add: close_editor_def)
  with g o e show ?thesis by simp
qed

end
